theory Spec2Isabelle
  imports Complex_Main
begin

section \<open>The notebook \<open>working_with_logarithm_of_objective_function\<close>\<close>

text \<open>
  The notebook defines two objective functions for a 4-dimensional standard multivariate
  normal distribution: \<open>getLogFunc_bad\<close>, the logarithm of the density returned by
  \<open>scipy.stats.multivariate_normal.pdf\<close>, and \<open>getLogFunc\<close>, which evaluates the
  logarithm of the density directly from the module-level constants \<open>MEAN\<close>,
  \<open>INVCOV\<close> and \<open>MVN_COEF\<close>.

  All numbers of the program are numpy \<open>float64\<close> values. They are modelled by the type
  \<open>npfloat\<close>: a real number, one of the two infinities, or not-a-number. Every
  arithmetic operation takes the rounding function as its first argument, so that one
  translation of the source serves two readings: \<open>exact\<close>, in which no operation rounds
  (the arithmetic of the real numbers), and \<open>binary64\<close>, IEEE 754 double precision with
  rounding to nearest, ties to even. In that reading every operation, the square root,
  logarithm, exponential and power included, returns the double nearest to the exact
  result; the library functions behind \<open>np.log\<close> and \<open>np.exp\<close> may in fact be
  off by one unit in the last place. Signed zeros are not distinguished, and a warning
  that numpy prints without raising is not part of the result.
\<close>

subsection \<open>Floating-point values and their arithmetic\<close>

datatype npfloat = Fin real | PInf | NInf | NaN

type_synonym rounding = "real \<Rightarrow> npfloat"

definition exact :: rounding where
  "exact x = Fin x"

definition round_half_even :: "real \<Rightarrow> int" where
  \<comment> \<open>the integer nearest to \<open>y\<close>, the even one of the two when \<open>y\<close> lies halfway\<close>
  "round_half_even y =
     (let f = \<lfloor>y\<rfloor>; d = y - of_int f
      in if d < 1 / 2 then f else if 1 / 2 < d then f + 1 else if even f then f else f + 1)"

definition quantum :: "real \<Rightarrow> real" where
  \<comment> \<open>the spacing of the doubles around \<open>x\<close>: 52 fraction bits below the exponent of
      \<open>x\<close>, and \<open>2^-1074\<close> throughout the subnormal range\<close>
  "quantum x = 2 powr of_int (max \<lfloor>log 2 \<bar>x\<bar>\<rfloor> (- 1022) - 52)"

definition nearest :: "real \<Rightarrow> real" where
  \<comment> \<open>rounding to a multiple of the spacing, with no bound on the exponent\<close>
  "nearest x = (if x = 0 then 0 else quantum x * of_int (round_half_even (x / quantum x)))"

definition binary64 :: rounding where
  \<comment> \<open>a rounded magnitude of \<open>2^1024\<close> or more overflows to an infinity\<close>
  "binary64 x =
     (let y = nearest x
      in if 2 ^ 1024 \<le> \<bar>y\<bar> then (if 0 < x then PInf else NInf) else Fin y)"

fun fneg :: "npfloat \<Rightarrow> npfloat" where
  "fneg (Fin a) = Fin (- a)"
| "fneg PInf = NInf"
| "fneg NInf = PInf"
| "fneg NaN = NaN"

fun fadd :: "rounding \<Rightarrow> npfloat \<Rightarrow> npfloat \<Rightarrow> npfloat" where
  "fadd rnd (Fin a) (Fin b) = rnd (a + b)"
| "fadd rnd NaN y = NaN"
| "fadd rnd x NaN = NaN"
| "fadd rnd PInf NInf = NaN"
| "fadd rnd NInf PInf = NaN"
| "fadd rnd PInf y = PInf"
| "fadd rnd NInf y = NInf"
| "fadd rnd (Fin a) y = y"

definition fsub :: "rounding \<Rightarrow> npfloat \<Rightarrow> npfloat \<Rightarrow> npfloat" where
  "fsub rnd x y = fadd rnd x (fneg y)"

fun fmul :: "rounding \<Rightarrow> npfloat \<Rightarrow> npfloat \<Rightarrow> npfloat" where
  "fmul rnd (Fin a) (Fin b) = rnd (a * b)"
| "fmul rnd NaN y = NaN"
| "fmul rnd x NaN = NaN"
| "fmul rnd (Fin a) y = (if a = 0 then NaN else if 0 < a then y else fneg y)"
| "fmul rnd x (Fin b) = (if b = 0 then NaN else if 0 < b then x else fneg x)"
| "fmul rnd PInf y = y"
| "fmul rnd NInf y = fneg y"

fun fdiv :: "rounding \<Rightarrow> npfloat \<Rightarrow> npfloat \<Rightarrow> npfloat" where
  "fdiv rnd (Fin a) (Fin b) =
     (if b = 0 then (if a = 0 then NaN else if 0 < a then PInf else NInf) else rnd (a / b))"
| "fdiv rnd NaN y = NaN"
| "fdiv rnd x NaN = NaN"
| "fdiv rnd (Fin a) y = Fin 0"
| "fdiv rnd x (Fin b) = (if 0 \<le> b then x else fneg x)"
| "fdiv rnd PInf y = NaN"
| "fdiv rnd NInf y = NaN"

fun fle :: "npfloat \<Rightarrow> npfloat \<Rightarrow> bool" where
  \<comment> \<open>the comparison \<open>x <= y\<close> of two floats; it is false when either is \<open>nan\<close>\<close>
  "fle (Fin a) (Fin b) \<longleftrightarrow> a \<le> b"
| "fle NaN y \<longleftrightarrow> False"
| "fle x NaN \<longleftrightarrow> False"
| "fle NInf y \<longleftrightarrow> True"
| "fle x PInf \<longleftrightarrow> True"
| "fle PInf y \<longleftrightarrow> False"
| "fle x NInf \<longleftrightarrow> False"

fun np_sqrt :: "rounding \<Rightarrow> npfloat \<Rightarrow> npfloat" where
  "np_sqrt rnd (Fin a) = (if a < 0 then NaN else rnd (sqrt a))"
| "np_sqrt rnd PInf = PInf"
| "np_sqrt rnd x = NaN"

fun np_log :: "rounding \<Rightarrow> npfloat \<Rightarrow> npfloat" where
  \<comment> \<open>\<open>np.log(0.0)\<close> is \<open>-inf\<close> and \<open>np.log\<close> of a negative number is \<open>nan\<close>; numpy
      prints a RuntimeWarning and raises nothing\<close>
  "np_log rnd (Fin a) = (if a < 0 then NaN else if a = 0 then NInf else rnd (ln a))"
| "np_log rnd PInf = PInf"
| "np_log rnd x = NaN"

fun np_exp :: "rounding \<Rightarrow> npfloat \<Rightarrow> npfloat" where
  "np_exp rnd (Fin a) = rnd (exp a)"
| "np_exp rnd PInf = PInf"
| "np_exp rnd NInf = Fin 0"
| "np_exp rnd NaN = NaN"

fun np_power :: "rounding \<Rightarrow> npfloat \<Rightarrow> real \<Rightarrow> npfloat" where
  \<comment> \<open>a power with a fixed real exponent, as in the density formula of the notebook\<close>
  "np_power rnd (Fin a) p =
     (if 0 < a then rnd (a powr p)
      else if a < 0 then NaN
      else if p < 0 then PInf else if p = 0 then Fin 1 else Fin 0)"
| "np_power rnd PInf p = (if p < 0 then Fin 0 else if p = 0 then Fin 1 else PInf)"
| "np_power rnd x p = NaN"

subsection \<open>The numpy array operations the notebook calls\<close>

text \<open>
  A one-dimensional array is a list, a two-dimensional array the list of its rows; a Python
  list of numbers given as the point is converted to such an array by the subtraction.
  An operation on arrays whose shapes do not fit raises \<open>ValueError\<close>;
  \<open>np.linalg.inv\<close> raises \<open>LinAlgError\<close>. Sums are taken from left to right; in
  double precision the library routines behind \<open>np.dot\<close> and \<open>np.matmul\<close> may
  associate a sum differently.
\<close>

datatype error = ValueError | LinAlgError

definition np_zeros :: "nat \<Rightarrow> npfloat list" where
  "np_zeros n = replicate n (Fin 0)"

definition np_subtract :: "rounding \<Rightarrow> npfloat list \<Rightarrow> npfloat list \<Rightarrow> error + npfloat list" where
  \<comment> \<open>\<open>a - b\<close> on one-dimensional arrays, with the broadcasting of numpy: arrays
      of equal length are subtracted element by element, an array of length one is
      stretched to the length of the other, and any other pair of lengths raises\<close>
  "np_subtract rnd a b =
     (if length a = length b then Inr (map2 (fsub rnd) a b)
      else if length b = 1 then Inr (map (\<lambda>x. fsub rnd x (hd b)) a)
      else if length a = 1 then Inr (map (\<lambda>y. fsub rnd (hd a) y) b)
      else Inl ValueError)"

definition np_dot :: "rounding \<Rightarrow> npfloat list \<Rightarrow> npfloat list \<Rightarrow> error + npfloat" where
  \<comment> \<open>the inner product of two one-dimensional arrays, summed from left to right\<close>
  "np_dot rnd a b =
     (if length a = length b then Inr (foldl (fadd rnd) (Fin 0) (map2 (fmul rnd) a b))
      else Inl ValueError)"

definition row_times :: "rounding \<Rightarrow> npfloat list \<Rightarrow> npfloat list \<Rightarrow> npfloat" where
  \<comment> \<open>one entry of a matrix-vector product\<close>
  "row_times rnd r v = foldl (fadd rnd) (Fin 0) (map2 (fmul rnd) r v)"

definition np_matmul :: "rounding \<Rightarrow> npfloat list list \<Rightarrow> npfloat list \<Rightarrow> error + npfloat list" where
  \<comment> \<open>a two-dimensional array times a one-dimensional one: every row must have the
      length of the vector\<close>
  "np_matmul rnd m v =
     (if \<forall>r \<in> set m. length r = length v then Inr (map (\<lambda>r. row_times rnd r v) m)
      else Inl ValueError)"

subsection \<open>Determinant and inverse\<close>

text \<open>
  \<open>np.linalg.det\<close> and \<open>np.linalg.inv\<close> are numpy routines, not part of the
  repository. They are modelled by what they compute: the determinant (expanded along the
  first row) and the inverse matrix (the transposed cofactors over the determinant), each
  entry rounded by the arithmetic in force. Both raise \<open>LinAlgError\<close> on an array
  that is not square, and \<open>np.linalg.inv\<close> raises it on a singular matrix. In exact
  arithmetic this is what the routines do. In double precision it idealises them: they
  work by a factorisation whose rounding errors are not modelled, and which reports a
  singular matrix only when it meets a pivot that is exactly zero. The results in double
  precision below apply the two routines to the identity matrix only, where they are exact.
\<close>

definition drop_at :: "nat \<Rightarrow> 'a list \<Rightarrow> 'a list" where
  "drop_at j xs = take j xs @ drop (Suc j) xs"

function det :: "real list list \<Rightarrow> real" where
  "det [] = 1"
| "det (r # rs) =
     sum_list (map (\<lambda>j. (- 1) ^ j * (r ! j) * det (map (drop_at j) rs)) [0..<length r])"
  by pat_completeness auto
termination
  by (relation "measure length") auto

declare det.simps [simp del]

definition cofactor :: "real list list \<Rightarrow> nat \<Rightarrow> nat \<Rightarrow> real" where
  "cofactor a i j = (- 1) ^ (i + j) * det (map (drop_at j) (drop_at i a))"

definition inverse_matrix :: "real list list \<Rightarrow> real list list" where
  "inverse_matrix a =
     map (\<lambda>i. map (\<lambda>j. cofactor a j i / det a) [0..<length a]) [0..<length a]"

definition square :: "'a list list \<Rightarrow> bool" where
  "square a \<longleftrightarrow> (\<forall>r \<in> set a. length r = length a)"

fun fin_value :: "npfloat \<Rightarrow> real option" where
  "fin_value (Fin a) = Some a"
| "fin_value x = None"

definition np_linalg_inv :: "rounding \<Rightarrow> real list list \<Rightarrow> error + npfloat list list" where
  \<comment> \<open>Modelled from the spec: the inversion routine (\<open>np.linalg.inv\<close>, which is
      not part of the repository) computes the matrix inverse of the covariance and fails
      when the covariance is not square or is not invertible, that is, has determinant
      zero\<close>
  "np_linalg_inv rnd a =
     (if \<not> square a then Inl LinAlgError
      else if det a = 0 then Inl LinAlgError
      else Inr (map (map rnd) (inverse_matrix a)))"

definition np_linalg_det :: "rounding \<Rightarrow> npfloat list list \<Rightarrow> error + npfloat" where
  \<comment> \<open>Modelled from the spec: the determinant routine (\<open>np.linalg.det\<close>, which is
      not part of the repository) computes the determinant; for a matrix with an entry
      that is not finite the result is taken to be \<open>nan\<close>\<close>
  "np_linalg_det rnd m =
     (if \<not> square m then Inl LinAlgError
      else (case those (map (\<lambda>r. those (map fin_value r)) m) of
              None \<Rightarrow> Inr NaN
            | Some a \<Rightarrow> Inr (rnd (det a))))"

subsection \<open>The module-level constants and \<open>getLogFunc\<close>\<close>

text \<open>
  The second code cell assigns \<open>NDIM\<close>, \<open>MEAN\<close> and \<open>COVMAT\<close> and computes
  \<open>INVCOV\<close> and \<open>MVN_COEF\<close> from them; \<open>getLogFunc\<close> reads these globals.
  \<open>init_module\<close> is the cell as a function of its first three assignments, and
  \<open>notebook_module\<close> the cell with the values the notebook gives them. An exception
  in the cell leaves no module behind.
\<close>

record module =
  NDIM :: nat
  MEAN :: "npfloat list"
  COVMAT :: "real list list"
  INVCOV :: "npfloat list list"
  MVN_COEF :: npfloat

definition eye :: "nat \<Rightarrow> real list list" where
  "eye n = map (\<lambda>i. map (\<lambda>j. if i = j then 1 else 0) [0..<n]) [0..<n]"

definition log_coef :: "rounding \<Rightarrow> nat \<Rightarrow> npfloat \<Rightarrow> npfloat" where
  \<comment> \<open>\<open>NDIM * np.log(1. / np.sqrt(2.*np.pi)) + np.log(np.sqrt(d))\<close>\<close>
  "log_coef rnd ndim d =
     fadd rnd
       (fmul rnd (Fin (real ndim))
          (np_log rnd (fdiv rnd (Fin 1) (np_sqrt rnd (fmul rnd (Fin 2) (rnd pi))))))
       (np_log rnd (np_sqrt rnd d))"

definition init_module :: "rounding \<Rightarrow> nat \<Rightarrow> npfloat list \<Rightarrow> real list list \<Rightarrow> error + module" where
  "init_module rnd ndim mean covmat =
     (case np_linalg_inv rnd covmat of
        Inl e \<Rightarrow> Inl e
      | Inr invcov \<Rightarrow>
          (case np_linalg_det rnd invcov of
             Inl e \<Rightarrow> Inl e
           | Inr d \<Rightarrow>
               Inr \<lparr>NDIM = ndim, MEAN = mean, COVMAT = covmat, INVCOV = invcov,
                    MVN_COEF = log_coef rnd ndim d\<rparr>))"

definition notebook_module :: "rounding \<Rightarrow> error + module" where
  "notebook_module rnd = init_module rnd 4 (np_zeros 4) (eye 4)"

definition quadraticForm :: "real list \<Rightarrow> real list list \<Rightarrow> real" where
  \<comment> \<open>the quadratic form of the specification, \<open>delta\<^sup>T \<cdot> m \<cdot> delta\<close>, as a double sum\<close>
  "quadraticForm delta m =
     (\<Sum>i<length delta. \<Sum>j<length delta. delta ! i * (m ! i ! j) * delta ! j)"

definition getLogFunc :: "rounding \<Rightarrow> module \<Rightarrow> npfloat list \<Rightarrow> error + npfloat" where
  \<comment> \<open>\<open>normedPoint = MEAN - point\<close>;
      \<open>return MVN_COEF - 0.5 * ( np.dot( normedPoint, np.matmul(INVCOV,normedPoint) ) )\<close>\<close>
  "getLogFunc rnd g point =
     (case np_subtract rnd (MEAN g) point of
        Inl e \<Rightarrow> Inl e
      | Inr normedPoint \<Rightarrow>
          (case np_matmul rnd (INVCOV g) normedPoint of
             Inl e \<Rightarrow> Inl e
           | Inr w \<Rightarrow>
               (case np_dot rnd normedPoint w of
                  Inl e \<Rightarrow> Inl e
                | Inr q \<Rightarrow> Inr (fsub rnd (MVN_COEF g) (fmul rnd (Fin (1 / 2)) q)))))"


subsection \<open>The density of scipy and \<open>getLogFunc_bad\<close>\<close>

text \<open>
  The first code cell builds \<open>mvn = multivariate_normal(mean, cov)\<close> and defines
  \<open>getLogFunc_bad(point)\<close> as \<open>np.log(mvn.pdf(point))\<close>.
  \<open>scipy.stats.multivariate_normal\<close> is not part of the repository. Its \<open>pdf\<close>
  is modelled by the formula the notebook states for the density,
  \<open>(2\<pi>)\<^sup>-\<^sup>k\<^sup>/\<^sup>2 |\<Sigma>|\<^sup>-\<^sup>1\<^sup>/\<^sup>2 exp (- 1/2 (x - \<mu>)\<^sup>T \<Sigma>\<^sup>-\<^sup>1 (x - \<mu>))\<close>, evaluated as the
  specification describes the naive path.
\<close>

record mvn_frozen =
  mvn_mean :: "npfloat list"
  mvn_cov :: "real list list"

definition mvn_pdf :: "rounding \<Rightarrow> mvn_frozen \<Rightarrow> npfloat list \<Rightarrow> error + npfloat" where
  \<comment> \<open>Modelled from the spec: the naive path computes
      \<open>density = normalizationConstant * exp(-0.5 * quadraticForm)\<close> with the ordinary
      normalization constant, from the inverse and the determinant of the covariance\<close>
  "mvn_pdf rnd mvn x =
     (case np_linalg_inv rnd (mvn_cov mvn) of
        Inl e \<Rightarrow> Inl e
      | Inr prec \<Rightarrow>
     (case np_linalg_det rnd (map (map Fin) (mvn_cov mvn)) of
        Inl e \<Rightarrow> Inl e
      | Inr d \<Rightarrow>
     (case np_subtract rnd x (mvn_mean mvn) of
        Inl e \<Rightarrow> Inl e
      | Inr dev \<Rightarrow>
     (case np_matmul rnd prec dev of
        Inl e \<Rightarrow> Inl e
      | Inr w \<Rightarrow>
     (case np_dot rnd dev w of
        Inl e \<Rightarrow> Inl e
      | Inr q \<Rightarrow>
          Inr (fmul rnd
                 (fmul rnd
                    (np_power rnd (fmul rnd (Fin 2) (rnd pi))
                       (- real (length (mvn_mean mvn)) / 2))
                    (np_power rnd d (- 1 / 2)))
                 (np_exp rnd (fmul rnd (Fin (- 1 / 2)) q))))))))"

definition getLogFunc_bad :: "rounding \<Rightarrow> mvn_frozen \<Rightarrow> npfloat list \<Rightarrow> error + npfloat" where
  "getLogFunc_bad rnd mvn point =
     (case mvn_pdf rnd mvn point of Inl e \<Rightarrow> Inl e | Inr p \<Rightarrow> Inr (np_log rnd p))"

definition notebook_mvn :: mvn_frozen where
  "notebook_mvn = \<lparr>mvn_mean = np_zeros 4, mvn_cov = eye 4\<rparr>"



subsection \<open>The notebook's globals, and notions used in the proofs\<close>

text \<open>
  \<open>notebook_exact\<close> and \<open>notebook_binary64\<close> are the values of the module globals
  after the second cell has run, in the two arithmetics (lemmas
  \<open>notebook_module_exact_eq\<close> and \<open>notebook_module_binary64_eq\<close>).
  \<open>det3\<close> and \<open>det4\<close> are the determinants of matrices of three and four rows,
  written out. \<open>representable c\<close> says that \<open>c\<close> is an integer of fewer than 54 bits
  times a power of two not below \<open>2^-1074\<close>; \<open>fin_within B v\<close> says that \<open>v\<close> is a
  finite number of magnitude at most \<open>B\<close>; \<open>huge\<close> is a magnitude below which a
  rounded result cannot overflow; \<open>unit_roundoff\<close> is \<open>2^-53\<close>, the largest relative
  error of one rounding in the normal range.
\<close>

definition det3 ::
  "real \<Rightarrow> real \<Rightarrow> real \<Rightarrow> real \<Rightarrow> real \<Rightarrow> real \<Rightarrow> real \<Rightarrow> real \<Rightarrow> real \<Rightarrow> real" where
  "det3 a b c d e f g h i = a * (e * i - f * h) - b * (d * i - f * g) + c * (d * h - e * g)"

definition det4 ::
  "real \<Rightarrow> real \<Rightarrow> real \<Rightarrow> real \<Rightarrow> real \<Rightarrow> real \<Rightarrow> real \<Rightarrow> real \<Rightarrow>
   real \<Rightarrow> real \<Rightarrow> real \<Rightarrow> real \<Rightarrow> real \<Rightarrow> real \<Rightarrow> real \<Rightarrow> real \<Rightarrow> real" where
  "det4 a1 a2 a3 a4 b1 b2 b3 b4 c1 c2 c3 c4 e1 e2 e3 e4 =
     a1 * det3 b2 b3 b4 c2 c3 c4 e2 e3 e4 - a2 * det3 b1 b3 b4 c1 c3 c4 e1 e3 e4
     + a3 * det3 b1 b2 b4 c1 c2 c4 e1 e2 e4 - a4 * det3 b1 b2 b3 c1 c2 c3 e1 e2 e3"

definition huge :: real where
  "huge = 2 ^ 1023"

definition representable :: "real \<Rightarrow> bool" where
  "representable c \<longleftrightarrow>
     (\<exists>m k. c = of_int m * 2 powr of_int k \<and> \<bar>m\<bar> < 2 ^ 53 \<and> - 1074 \<le> k)"

definition fin_within :: "real \<Rightarrow> npfloat \<Rightarrow> bool" where
  "fin_within B v \<longleftrightarrow> (\<exists>y. v = Fin y \<and> \<bar>y\<bar> \<le> B)"

definition notebook_exact :: module where
  "notebook_exact =
     \<lparr>NDIM = 4, MEAN = np_zeros 4, COVMAT = eye 4, INVCOV = map (map Fin) (eye 4),
      MVN_COEF = Fin (- 2 * ln (2 * pi))\<rparr>"

definition notebook_binary64 :: module where
  "notebook_binary64 =
     \<lparr>NDIM = 4, MEAN = np_zeros 4, COVMAT = eye 4, INVCOV = map (map Fin) (eye 4),
      MVN_COEF = log_coef binary64 4 (Fin 1)\<rparr>"

definition unit_roundoff :: real where
  "unit_roundoff = 2 powr (- 53)"

section \<open>Exact arithmetic\<close>

lemma exact_eq: "exact = Fin"
  by (rule ext) (simp add: exact_def)

lemma fsub_Fin: "fsub Fin (Fin a) (Fin b) = Fin (a - b)"
  by (simp add: fsub_def)

lemma foldl_fadd_Fin: "foldl (fadd Fin) (Fin s) (map Fin xs) = Fin (s + sum_list xs)"
  by (induction xs arbitrary: s) (simp_all add: add.assoc)

lemma map2_fmul_Fin:
  "map2 (fmul Fin) (map Fin a) (map Fin b) = map Fin (map2 (*) a b)"
proof (induction a arbitrary: b)
  case Nil
  show ?case by simp
next
  case (Cons x a)
  show ?case by (cases b) (simp_all add: Cons.IH del: map_map)
qed

lemma map2_fsub_Fin:
  "map2 (fsub Fin) (map Fin a) (map Fin b) = map Fin (map2 (-) a b)"
proof (induction a arbitrary: b)
  case Nil
  show ?case by simp
next
  case (Cons x a)
  show ?case by (cases b) (simp_all add: Cons.IH fsub_Fin del: map_map)
qed

lemma sum_list_map2_times:
  "length a = length b \<Longrightarrow> sum_list (map2 (*) a b) = (\<Sum>i<length a. a ! i * (b ! i :: real))"
  by (simp add: sum_list_sum_nth atLeast0LessThan)

lemma row_times_exact:
  "length r = length v \<Longrightarrow>
   row_times exact (map Fin r) (map Fin v) = Fin (\<Sum>j<length v. r ! j * v ! j)"
  unfolding exact_eq row_times_def map2_fmul_Fin foldl_fadd_Fin
  by (simp add: sum_list_map2_times)

lemma np_dot_exact:
  "length a = length b \<Longrightarrow>
   np_dot exact (map Fin a) (map Fin b) = Inr (Fin (\<Sum>i<length a. a ! i * b ! i))"
  unfolding exact_eq np_dot_def map2_fmul_Fin foldl_fadd_Fin
  by (simp add: sum_list_map2_times)

lemma np_matmul_exact:
  assumes "\<forall>r \<in> set m. length r = length v"
  shows "np_matmul exact (map (map Fin) m) (map Fin v) =
         Inr (map Fin (map (\<lambda>r. \<Sum>j<length v. r ! j * v ! j) m))"
  using assms by (simp add: np_matmul_def row_times_exact)

lemma np_subtract_exact:
  "length a = length b \<Longrightarrow>
   np_subtract exact (map Fin a) (map Fin b) = Inr (map Fin (map2 (-) a b))"
  unfolding exact_eq np_subtract_def map2_fsub_Fin by simp

lemma getLogFunc_exact_from_difference:
  assumes "np_subtract exact (MEAN g) p = Inr (map Fin d)"
    and "INVCOV g = map (map Fin) ic" and "MVN_COEF g = Fin c"
    and "length d = n" and "length ic = n" and "\<forall>r \<in> set ic. length r = n"
  shows "getLogFunc exact g p = Inr (Fin (c - 1 / 2 * quadraticForm d ic))"
proof -
  have mm: "np_matmul exact (INVCOV g) (map Fin d) =
            Inr (map Fin (map (\<lambda>r. \<Sum>j<n. r ! j * d ! j) ic))"
    using assms np_matmul_exact [of ic d] by simp
  have dt: "np_dot exact (map Fin d) (map Fin (map (\<lambda>r. \<Sum>j<n. r ! j * d ! j) ic)) =
            Inr (Fin (\<Sum>i<n. d ! i * (\<Sum>j<n. ic ! i ! j * d ! j)))"
    using assms np_dot_exact [of d "map (\<lambda>r. \<Sum>j<n. r ! j * d ! j) ic"] by simp
  have q: "(\<Sum>i<n. d ! i * (\<Sum>j<n. ic ! i ! j * d ! j)) = quadraticForm d ic"
    unfolding quadraticForm_def assms(4) by (simp add: sum_distrib_left mult.assoc)
  have "getLogFunc exact g p =
        Inr (fsub exact (Fin c) (fmul exact (Fin (1 / 2)) (Fin (quadraticForm d ic))))"
    unfolding getLogFunc_def assms(1) sum.case mm dt q assms(3) ..
  then show ?thesis
    by (simp add: exact_eq fsub_Fin)
qed

lemma getLogFunc_exact_value:
  assumes "MEAN g = map Fin mean" and "INVCOV g = map (map Fin) ic" and "MVN_COEF g = Fin c"
    and "length mean = n" and "length ic = n" and "\<forall>r \<in> set ic. length r = n"
    and "length point = n"
  shows "getLogFunc exact g (map Fin point) =
         Inr (Fin (c - 1 / 2 * quadraticForm (map2 (-) mean point) ic))"
proof (rule getLogFunc_exact_from_difference)
  show "np_subtract exact (MEAN g) (map Fin point) = Inr (map Fin (map2 (-) mean point))"
    using assms by (simp add: np_subtract_exact del: map_map)
  show "length (map2 (-) mean point) = n" using assms by simp
qed (use assms in simp_all)

subsection \<open>Determinant and inverse of the identity matrix\<close>

lemma length_drop_at: "j < length xs \<Longrightarrow> length (drop_at j xs) = length xs - 1"
  by (simp add: drop_at_def)

lemma nth_drop_at:
  "k < length xs - 1 \<Longrightarrow> drop_at j xs ! k = xs ! (if k < j then k else Suc k)"
  by (auto simp add: drop_at_def nth_append min_def)

lemma set_drop_at_subset: "set (drop_at j xs) \<subseteq> set xs"
  by (auto simp add: drop_at_def dest: in_set_takeD in_set_dropD)

lemma sum_list_map_zero:
  "(\<And>x. x \<in> set xs \<Longrightarrow> f x = 0) \<Longrightarrow> sum_list (map f xs) = (0::real)"
  by (induction xs) auto

lemma det_zero_row:
  "r \<in> set a \<Longrightarrow> \<forall>x \<in> set r. x = 0 \<Longrightarrow> det a = 0"
proof (induction a arbitrary: r rule: det.induct)
  case 1
  then show ?case by simp
next
  case (2 r0 rs)
  have "(- 1) ^ j * (r0 ! j) * det (map (drop_at j) rs) = 0" if j: "j < length r0" for j
  proof (cases "r = r0")
    case True
    with 2(3) j show ?thesis by simp
  next
    case False
    with 2(2) have "r \<in> set rs" by simp
    then have "drop_at j r \<in> set (map (drop_at j) rs)" by simp
    moreover have "\<forall>x \<in> set (drop_at j r). x = 0"
      using 2(3) set_drop_at_subset [of j r] by blast
    ultimately have "det (map (drop_at j) rs) = 0"
      using 2(1) [of j "drop_at j r"] j by simp
    then show ?thesis by simp
  qed
  then have "sum_list (map (\<lambda>j. (- 1) ^ j * (r0 ! j) * det (map (drop_at j) rs)) [0..<length r0]) = 0"
    by (intro sum_list_map_zero) simp
  then show ?case by (simp add: det.simps)
qed

lemma length_eye: "length (eye n) = n"
  by (simp add: eye_def)

lemma nth_eye: "i < n \<Longrightarrow> j < n \<Longrightarrow> eye n ! i ! j = (if i = j then 1 else 0)"
  by (simp add: eye_def)

lemma length_nth_eye: "i < n \<Longrightarrow> length (eye n ! i) = n"
  by (simp add: eye_def)

lemma square_eye: "square (eye n)"
  by (auto simp add: square_def eye_def)

lemma minor_eye_same:
  assumes "i < Suc n"
  shows "map (drop_at i) (drop_at i (eye (Suc n))) = eye n"
proof (rule nth_equalityI)
  show "length (map (drop_at i) (drop_at i (eye (Suc n)))) = length (eye n)"
    using assms by (simp add: length_drop_at length_eye)
next
  fix k assume "k < length (map (drop_at i) (drop_at i (eye (Suc n))))"
  then have k: "k < n" using assms by (simp add: length_drop_at length_eye)
  let ?k = "if k < i then k else Suc k"
  have row: "drop_at i (eye (Suc n)) ! k = eye (Suc n) ! ?k"
    using k by (simp add: nth_drop_at length_eye)
  have "drop_at i (eye (Suc n) ! ?k) = eye n ! k"
  proof (rule nth_equalityI)
    show "length (drop_at i (eye (Suc n) ! ?k)) = length (eye n ! k)"
      using k assms by (simp add: length_drop_at length_nth_eye)
  next
    fix l assume "l < length (drop_at i (eye (Suc n) ! ?k))"
    then have l: "l < n" using k assms by (simp add: length_drop_at length_nth_eye)
    show "drop_at i (eye (Suc n) ! ?k) ! l = eye n ! k ! l"
      using k l by (simp add: nth_drop_at length_nth_eye nth_eye)
  qed
  then show "map (drop_at i) (drop_at i (eye (Suc n))) ! k = eye n ! k"
    using k assms row by (simp add: length_drop_at length_eye)
qed

lemma det_eye: "det (eye n) = 1"
proof (induction n)
  case 0
  show ?case by (simp add: eye_def det.simps)
next
  case (Suc n)
  have e: "eye (Suc n) = (eye (Suc n) ! 0) # drop_at 0 (eye (Suc n))"
    by (simp add: drop_at_def eye_def upt_rec [of 0] del: upt_Suc)
  have r: "eye (Suc n) ! 0 = 1 # replicate n 0"
    by (rule nth_equalityI) (auto simp add: length_nth_eye nth_eye nth_Cons')
  have "det (eye (Suc n)) = det ((1 # replicate n 0) # drop_at 0 (eye (Suc n)))"
    using e r by simp
  also have "\<dots> = det (map (drop_at 0) (drop_at 0 (eye (Suc n)))) +
      sum_list (map (\<lambda>j. (- 1) ^ j * ((1 # replicate n 0) ! j) *
         det (map (drop_at j) (drop_at 0 (eye (Suc n))))) [1..<Suc n])"
    by (simp add: det.simps upt_rec [of 0] del: upt_Suc)
  also have "sum_list (map (\<lambda>j. (- 1) ^ j * ((1 # replicate n 0) ! j) *
         det (map (drop_at j) (drop_at 0 (eye (Suc n))))) [1..<Suc n]) = 0"
    by (intro sum_list_map_zero) (auto simp add: nth_Cons')
  finally show ?case
    using Suc minor_eye_same [of 0 n] by simp
qed

lemma nth_mem_drop_at:
  assumes "i < length xs" and "i \<noteq> j"
  shows "xs ! i \<in> set (drop_at j xs)"
proof (cases "i < j")
  case True
  then have "xs ! i = take j xs ! i" by simp
  moreover have "i < length (take j xs)" using assms True by simp
  ultimately have "xs ! i \<in> set (take j xs)" by (metis nth_mem)
  then show ?thesis by (simp add: drop_at_def)
next
  case False
  with assms have le: "Suc j \<le> i" by simp
  then have "xs ! i = drop (Suc j) xs ! (i - Suc j)" using assms(1) by simp
  moreover have "i - Suc j < length (drop (Suc j) xs)" using assms(1) le by simp
  ultimately have "xs ! i \<in> set (drop (Suc j) xs)" by (metis nth_mem)
  then show ?thesis by (simp add: drop_at_def)
qed

lemma drop_at_eye_row_zero:
  assumes "i < n"
  shows "\<forall>x \<in> set (drop_at i (eye n ! i)). x = 0"
proof
  fix x assume "x \<in> set (drop_at i (eye n ! i))"
  then obtain k where k: "k < length (drop_at i (eye n ! i))" and x: "x = drop_at i (eye n ! i) ! k"
    by (metis in_set_conv_nth)
  from k assms have k': "k < n - 1" by (simp add: length_drop_at length_nth_eye)
  then have "x = eye n ! i ! (if k < i then k else Suc k)"
    using x assms by (simp add: nth_drop_at length_nth_eye)
  then show "x = 0" using k' assms by (simp add: nth_eye)
qed

lemma minor_eye_diff:
  assumes "i < n" and "j < n" and "i \<noteq> j"
  shows "det (map (drop_at i) (drop_at j (eye n))) = 0"
proof -
  have "eye n ! i \<in> set (drop_at j (eye n))"
    using assms by (simp add: nth_mem_drop_at length_eye)
  then have "drop_at i (eye n ! i) \<in> set (map (drop_at i) (drop_at j (eye n)))"
    by simp
  then show ?thesis
    using drop_at_eye_row_zero [OF assms(1)] by (rule det_zero_row)
qed

lemma cofactor_eye:
  assumes "i < n" and "j < n"
  shows "cofactor (eye n) j i = (if i = j then 1 else 0)"
proof (cases "i = j")
  case True
  obtain m where m: "n = Suc m" using assms by (cases n) simp_all
  have "(- 1 :: real) ^ (i + i) = 1" by (simp add: mult_2 [symmetric])
  then show ?thesis
    using True assms minor_eye_same [of i m] det_eye [of m] by (simp add: cofactor_def m)
next
  case False
  then show ?thesis using assms by (simp add: cofactor_def minor_eye_diff)
qed

lemma inverse_matrix_eye: "inverse_matrix (eye n) = eye n"
  unfolding inverse_matrix_def length_eye det_eye
  by (simp add: eye_def cofactor_eye [unfolded eye_def])

subsection \<open>The module and the two objective functions in exact arithmetic\<close>

lemma length_inverse_matrix: "length (inverse_matrix a) = length a"
  by (simp add: inverse_matrix_def)

lemma square_inverse_matrix: "square (inverse_matrix a)"
  by (auto simp add: square_def inverse_matrix_def)

lemma rows_inverse_matrix: "r \<in> set (inverse_matrix a) \<Longrightarrow> length r = length a"
  by (auto simp add: inverse_matrix_def)

lemma those_map_Fin: "those (map fin_value (map Fin r)) = Some r"
  by (induction r) simp_all

lemma those_map_map_Fin: "those (map (\<lambda>r. those (map fin_value r)) (map (map Fin) a)) = Some a"
  by (induction a) (simp_all add: those_map_Fin del: map_map)

lemma square_map_map: "square (map (map f) a) = square a"
  by (simp add: square_def)

lemma np_linalg_det_exact:
  "square a \<Longrightarrow> np_linalg_det exact (map (map Fin) a) = Inr (Fin (det a))"
  unfolding np_linalg_det_def those_map_map_Fin square_map_map by (simp add: exact_def)

lemma np_linalg_inv_exact:
  "square a \<Longrightarrow> det a \<noteq> 0 \<Longrightarrow> np_linalg_inv exact a = Inr (map (map Fin) (inverse_matrix a))"
  by (simp add: np_linalg_inv_def exact_eq)

lemma log_coef_exact:
  assumes "0 < d"
  shows "log_coef exact n (Fin d) = Fin (- (real n / 2) * ln (2 * pi) + 1 / 2 * ln d)"
proof -
  have p: "0 < sqrt (2 * pi)" by simp
  have "ln (1 / sqrt (2 * pi)) = - (ln (2 * pi) / 2)"
    using p by (simp add: ln_div ln_sqrt)
  moreover have "ln (sqrt d) = ln d / 2" using assms by (simp add: ln_sqrt)
  ultimately show ?thesis
    using assms p by (simp add: log_coef_def exact_eq)
qed

lemma init_module_exact:
  assumes "square covmat" and "det covmat \<noteq> 0" and "0 < det (inverse_matrix covmat)"
  shows "init_module exact n mean covmat =
         Inr \<lparr>NDIM = n, MEAN = mean, COVMAT = covmat,
              INVCOV = map (map Fin) (inverse_matrix covmat),
              MVN_COEF = Fin (- (real n / 2) * ln (2 * pi) + 1 / 2 * ln (det (inverse_matrix covmat)))\<rparr>"
  unfolding init_module_def
  using assms
  by (simp add: np_linalg_inv_exact np_linalg_det_exact square_inverse_matrix log_coef_exact)

lemma init_module_eye:
  "init_module exact n mean (eye n) =
     Inr \<lparr>NDIM = n, MEAN = mean, COVMAT = eye n, INVCOV = map (map Fin) (eye n),
          MVN_COEF = Fin (- (real n / 2) * ln (2 * pi))\<rparr>"
  using init_module_exact [of "eye n" n mean]
  by (simp add: square_eye det_eye inverse_matrix_eye)

lemma det_2x2: "det [[a, b], [c, d]] = a * d - b * c"
  by (simp add: det.simps drop_at_def upt_rec numeral_nat)

lemma det_1x1: "det [[a]] = a"
  by (simp add: det.simps drop_at_def)

lemma det_3x3: "det [[a, b, c], [d, e, f], [g, h, i]] = det3 a b c d e f g h i"
  by (simp add: det.simps drop_at_def upt_rec numeral_nat det3_def)

lemma det_4x4:
  "det [[a1, a2, a3, a4], [b1, b2, b3, b4], [c1, c2, c3, c4], [e1, e2, e3, e4]] = det4 a1 a2 a3 a4 b1 b2 b3 b4 c1 c2 c3 c4 e1 e2 e3 e4"
  unfolding det4_def det_3x3 [symmetric]
  by (subst det.simps) (simp add: drop_at_def upt_rec numeral_nat)

lemma det3_adjugate:
  "det3 (b2 * c3 - b3 * c2) (- (a2 * c3 - a3 * c2)) (a2 * b3 - a3 * b2) (- (b1 * c3 - b3 * c1)) (a1 * c3 - a3 * c1) (- (a1 * b3 - a3 * b1)) (b1 * c2 - b2 * c1) (- (a1 * c2 - a2 * c1)) (a1 * b2 - a2 * b1) = (det3 a1 a2 a3 b1 b2 b3 c1 c2 c3)\<^sup>2"
  unfolding det3_def by algebra

lemma det4_adjugate:
  "det4 (det3 b2 b3 b4 c2 c3 c4 e2 e3 e4) (- (det3 a2 a3 a4 c2 c3 c4 e2 e3 e4)) (det3 a2 a3 a4 b2 b3 b4 e2 e3 e4) (- (det3 a2 a3 a4 b2 b3 b4 c2 c3 c4)) (- (det3 b1 b3 b4 c1 c3 c4 e1 e3 e4)) (det3 a1 a3 a4 c1 c3 c4 e1 e3 e4) (- (det3 a1 a3 a4 b1 b3 b4 e1 e3 e4)) (det3 a1 a3 a4 b1 b3 b4 c1 c3 c4) (det3 b1 b2 b4 c1 c2 c4 e1 e2 e4) (- (det3 a1 a2 a4 c1 c2 c4 e1 e2 e4)) (det3 a1 a2 a4 b1 b2 b4 e1 e2 e4) (- (det3 a1 a2 a4 b1 b2 b4 c1 c2 c4)) (- (det3 b1 b2 b3 c1 c2 c3 e1 e2 e3)) (det3 a1 a2 a3 c1 c2 c3 e1 e2 e3) (- (det3 a1 a2 a3 b1 b2 b3 e1 e2 e3)) (det3 a1 a2 a3 b1 b2 b3 c1 c2 c3) = (det4 a1 a2 a3 a4 b1 b2 b3 b4 c1 c2 c3 c4 e1 e2 e3 e4) ^ 3"
  unfolding det4_def det3_def by algebra

lemma det3_scale:
  "det3 (a * t) (b * t) (c * t) (d * t) (e * t) (f * t) (g * t) (h * t) (i * t) =
   t ^ 3 * det3 a b c d e f g h i"
  unfolding det3_def by algebra

lemma det4_scale:
  "det4 (a1 * t) (a2 * t) (a3 * t) (a4 * t) (b1 * t) (b2 * t) (b3 * t) (b4 * t)
        (c1 * t) (c2 * t) (c3 * t) (c4 * t) (e1 * t) (e2 * t) (e3 * t) (e4 * t) =
   t ^ 4 * det4 a1 a2 a3 a4 b1 b2 b3 b4 c1 c2 c3 c4 e1 e2 e3 e4"
  unfolding det4_def det3_def by algebra

lemma inverse_matrix_3x3:
  "inverse_matrix [[a1, a2, a3], [b1, b2, b3], [c1, c2, c3]] =
   [[(b2 * c3 - b3 * c2) * inverse (det [[a1, a2, a3], [b1, b2, b3], [c1, c2, c3]]), (- (a2 * c3 - a3 * c2)) * inverse (det [[a1, a2, a3], [b1, b2, b3], [c1, c2, c3]]), (a2 * b3 - a3 * b2) * inverse (det [[a1, a2, a3], [b1, b2, b3], [c1, c2, c3]])], [(- (b1 * c3 - b3 * c1)) * inverse (det [[a1, a2, a3], [b1, b2, b3], [c1, c2, c3]]), (a1 * c3 - a3 * c1) * inverse (det [[a1, a2, a3], [b1, b2, b3], [c1, c2, c3]]), (- (a1 * b3 - a3 * b1)) * inverse (det [[a1, a2, a3], [b1, b2, b3], [c1, c2, c3]])], [(b1 * c2 - b2 * c1) * inverse (det [[a1, a2, a3], [b1, b2, b3], [c1, c2, c3]]), (- (a1 * c2 - a2 * c1)) * inverse (det [[a1, a2, a3], [b1, b2, b3], [c1, c2, c3]]), (a1 * b2 - a2 * b1) * inverse (det [[a1, a2, a3], [b1, b2, b3], [c1, c2, c3]])]]"
  unfolding inverse_matrix_def cofactor_def
  by (simp add: drop_at_def upt_rec numeral_nat det_2x2 divide_inverse)
     (simp add: algebra_simps)

lemma inverse_matrix_4x4:
  "inverse_matrix [[a1, a2, a3, a4], [b1, b2, b3, b4], [c1, c2, c3, c4], [e1, e2, e3, e4]] =
   [[(det3 b2 b3 b4 c2 c3 c4 e2 e3 e4) * inverse (det [[a1, a2, a3, a4], [b1, b2, b3, b4], [c1, c2, c3, c4], [e1, e2, e3, e4]]), (- (det3 a2 a3 a4 c2 c3 c4 e2 e3 e4)) * inverse (det [[a1, a2, a3, a4], [b1, b2, b3, b4], [c1, c2, c3, c4], [e1, e2, e3, e4]]), (det3 a2 a3 a4 b2 b3 b4 e2 e3 e4) * inverse (det [[a1, a2, a3, a4], [b1, b2, b3, b4], [c1, c2, c3, c4], [e1, e2, e3, e4]]), (- (det3 a2 a3 a4 b2 b3 b4 c2 c3 c4)) * inverse (det [[a1, a2, a3, a4], [b1, b2, b3, b4], [c1, c2, c3, c4], [e1, e2, e3, e4]])], [(- (det3 b1 b3 b4 c1 c3 c4 e1 e3 e4)) * inverse (det [[a1, a2, a3, a4], [b1, b2, b3, b4], [c1, c2, c3, c4], [e1, e2, e3, e4]]), (det3 a1 a3 a4 c1 c3 c4 e1 e3 e4) * inverse (det [[a1, a2, a3, a4], [b1, b2, b3, b4], [c1, c2, c3, c4], [e1, e2, e3, e4]]), (- (det3 a1 a3 a4 b1 b3 b4 e1 e3 e4)) * inverse (det [[a1, a2, a3, a4], [b1, b2, b3, b4], [c1, c2, c3, c4], [e1, e2, e3, e4]]), (det3 a1 a3 a4 b1 b3 b4 c1 c3 c4) * inverse (det [[a1, a2, a3, a4], [b1, b2, b3, b4], [c1, c2, c3, c4], [e1, e2, e3, e4]])], [(det3 b1 b2 b4 c1 c2 c4 e1 e2 e4) * inverse (det [[a1, a2, a3, a4], [b1, b2, b3, b4], [c1, c2, c3, c4], [e1, e2, e3, e4]]), (- (det3 a1 a2 a4 c1 c2 c4 e1 e2 e4)) * inverse (det [[a1, a2, a3, a4], [b1, b2, b3, b4], [c1, c2, c3, c4], [e1, e2, e3, e4]]), (det3 a1 a2 a4 b1 b2 b4 e1 e2 e4) * inverse (det [[a1, a2, a3, a4], [b1, b2, b3, b4], [c1, c2, c3, c4], [e1, e2, e3, e4]]), (- (det3 a1 a2 a4 b1 b2 b4 c1 c2 c4)) * inverse (det [[a1, a2, a3, a4], [b1, b2, b3, b4], [c1, c2, c3, c4], [e1, e2, e3, e4]])], [(- (det3 b1 b2 b3 c1 c2 c3 e1 e2 e3)) * inverse (det [[a1, a2, a3, a4], [b1, b2, b3, b4], [c1, c2, c3, c4], [e1, e2, e3, e4]]), (det3 a1 a2 a3 c1 c2 c3 e1 e2 e3) * inverse (det [[a1, a2, a3, a4], [b1, b2, b3, b4], [c1, c2, c3, c4], [e1, e2, e3, e4]]), (- (det3 a1 a2 a3 b1 b2 b3 e1 e2 e3)) * inverse (det [[a1, a2, a3, a4], [b1, b2, b3, b4], [c1, c2, c3, c4], [e1, e2, e3, e4]]), (det3 a1 a2 a3 b1 b2 b3 c1 c2 c3) * inverse (det [[a1, a2, a3, a4], [b1, b2, b3, b4], [c1, c2, c3, c4], [e1, e2, e3, e4]])]]"
  unfolding inverse_matrix_def cofactor_def
  by (simp add: drop_at_def upt_rec numeral_nat det_3x3 divide_inverse)

lemma length_four:
  assumes "length p = 4"
  obtains a b c d where "p = [a, b, c, d]"
proof -
  from assms obtain a p1 where "p = a # p1" "length p1 = 3" by (cases p) simp_all
  moreover from this obtain b p2 where "p1 = b # p2" "length p2 = 2" by (cases p1) simp_all
  moreover from this obtain c p3 where "p2 = c # p3" "length p3 = 1" by (cases p2) simp_all
  moreover from this obtain d where "p3 = [d]" by (cases p3) simp_all
  ultimately show ?thesis using that by simp
qed

lemma length_one: "length p = 1 \<Longrightarrow> \<exists>a. p = [a]"
  by (auto simp add: length_Suc_conv)

lemma length_two: "length p = 2 \<Longrightarrow> \<exists>a b. p = [a, b]"
  by (auto simp add: length_Suc_conv numeral_2_eq_2)

lemma length_three: "length p = 3 \<Longrightarrow> \<exists>a b c. p = [a, b, c]"
  by (auto simp add: length_Suc_conv numeral_3_eq_3)

lemma det_inverse_1x1:
  assumes "det [[a]] \<noteq> 0"
  shows "det (inverse_matrix [[a]]) = 1 / det [[a]]"
  using assms by (simp add: inverse_matrix_def cofactor_def det.simps drop_at_def)

lemma det_inverse_2x2:
  assumes "det [[a, b], [c, d]] \<noteq> 0"
  shows "det (inverse_matrix [[a, b], [c, d]]) = 1 / det [[a, b], [c, d]]"
proof -
  define t where "t = inverse (det [[a, b], [c, d]])"
  have "inverse_matrix [[a, b], [c, d]] = [[d * t, - b * t], [- c * t, a * t]]"
    unfolding inverse_matrix_def cofactor_def t_def
    by (simp add: drop_at_def upt_rec numeral_nat divide_inverse det_1x1)
  then have "det (inverse_matrix [[a, b], [c, d]]) = det [[d * t, - b * t], [- c * t, a * t]]"
    by (simp only:)
  also have "\<dots> = d * t * (a * t) - - b * t * (- c * t)" by (rule det_2x2)
  also have "\<dots> = t\<^sup>2 * (a * d - b * c)" by (simp add: power2_eq_square algebra_simps)
  finally have "det (inverse_matrix [[a, b], [c, d]]) = t\<^sup>2 * det [[a, b], [c, d]]"
    by (simp only: det_2x2)
  then show ?thesis using assms by (simp add: t_def power2_eq_square field_simps)
qed

lemma det_inverse_3x3:
  assumes "det [[a1, a2, a3], [b1, b2, b3], [c1, c2, c3]] \<noteq> 0"
  shows "det (inverse_matrix [[a1, a2, a3], [b1, b2, b3], [c1, c2, c3]]) =
         1 / det [[a1, a2, a3], [b1, b2, b3], [c1, c2, c3]]"
proof -
  define t where "t = inverse (det [[a1, a2, a3], [b1, b2, b3], [c1, c2, c3]])"
  have "det (inverse_matrix [[a1, a2, a3], [b1, b2, b3], [c1, c2, c3]]) =
        t ^ 3 * (det [[a1, a2, a3], [b1, b2, b3], [c1, c2, c3]])\<^sup>2"
    unfolding inverse_matrix_3x3 det_3x3 det3_scale det3_adjugate t_def ..
  then show ?thesis using assms by (simp add: t_def power2_eq_square power3_eq_cube field_simps)
qed

lemma det_inverse_4x4:
  assumes "det [[a1, a2, a3, a4], [b1, b2, b3, b4], [c1, c2, c3, c4], [e1, e2, e3, e4]] \<noteq> 0"
  shows "det (inverse_matrix [[a1, a2, a3, a4], [b1, b2, b3, b4], [c1, c2, c3, c4], [e1, e2, e3, e4]]) =
         1 / det [[a1, a2, a3, a4], [b1, b2, b3, b4], [c1, c2, c3, c4], [e1, e2, e3, e4]]"
proof -
  define t where
    "t = inverse (det [[a1, a2, a3, a4], [b1, b2, b3, b4], [c1, c2, c3, c4], [e1, e2, e3, e4]])"
  have "det (inverse_matrix [[a1, a2, a3, a4], [b1, b2, b3, b4], [c1, c2, c3, c4], [e1, e2, e3, e4]]) =
        t ^ 4 * (det [[a1, a2, a3, a4], [b1, b2, b3, b4], [c1, c2, c3, c4], [e1, e2, e3, e4]]) ^ 3"
    unfolding inverse_matrix_4x4 det_4x4 det4_scale det4_adjugate t_def ..
  then show ?thesis
    using assms by (simp add: t_def power3_eq_cube power4_eq_xxxx field_simps)
qed

lemma det_inverse_matrix_small:
  assumes "square a" and "length a \<le> 4" and "det a \<noteq> 0"
  shows "det (inverse_matrix a) = 1 / det a"
proof -
  consider "length a = 0" | "length a = 1" | "length a = 2" | "length a = 3" | "length a = 4"
    using assms(2) by linarith
  then show ?thesis
  proof cases
    case 1
    then show ?thesis by (simp add: inverse_matrix_def det.simps)
  next
    case 2
    then obtain r where a: "a = [r]" using length_one by blast
    with assms(1) obtain x where "r = [x]" using length_one [of r] by (auto simp add: square_def)
    with a assms(3) show ?thesis using det_inverse_1x1 by simp
  next
    case 3
    then obtain r s where a: "a = [r, s]" using length_two by blast
    with assms(1) have "length r = 2" "length s = 2" by (simp_all add: square_def)
    then obtain a1 a2 b1 b2 where "r = [a1, a2]" "s = [b1, b2]"
      using length_two [of r] length_two [of s] by blast
    with a assms(3) show ?thesis using det_inverse_2x2 by simp
  next
    case 4
    then obtain r s u where a: "a = [r, s, u]" using length_three by blast
    with assms(1) have "length r = 3" "length s = 3" "length u = 3" by (simp_all add: square_def)
    then obtain a1 a2 a3 b1 b2 b3 c1 c2 c3 where
      "r = [a1, a2, a3]" "s = [b1, b2, b3]" "u = [c1, c2, c3]"
      using length_three [of r] length_three [of s] length_three [of u] by blast
    with a assms(3) show ?thesis using det_inverse_3x3 by simp
  next
    case 5
    then obtain r s u v where a: "a = [r, s, u, v]" by (rule length_four)
    with assms(1) have "length r = 4" "length s = 4" "length u = 4" "length v = 4"
      by (simp_all add: square_def)
    then obtain a1 a2 a3 a4 b1 b2 b3 b4 c1 c2 c3 c4 e1 e2 e3 e4 where
      "r = [a1, a2, a3, a4]" "s = [b1, b2, b3, b4]" "u = [c1, c2, c3, c4]" "v = [e1, e2, e3, e4]"
      by (metis length_four)
    with a assms(3) show ?thesis using det_inverse_4x4 by simp
  qed
qed

lemma np_zeros_Fin: "np_zeros n = map Fin (replicate n 0)"
  by (simp add: np_zeros_def)

lemma rows_eye: "r \<in> set (eye n) \<Longrightarrow> length r = n"
  by (auto simp add: eye_def)

lemma quadraticForm_eye:
  assumes "length d = n"
  shows "quadraticForm d (eye n) = (\<Sum>i<n. (d ! i)\<^sup>2)"
proof -
  have "(\<Sum>j<n. d ! i * (eye n ! i ! j) * d ! j) = (d ! i)\<^sup>2" if "i < n" for i
  proof -
    have "(\<Sum>j<n. d ! i * (eye n ! i ! j) * d ! j) = (\<Sum>j<n. if j = i then (d ! i)\<^sup>2 else 0)"
      using that by (intro sum.cong) (auto simp add: nth_eye power2_eq_square)
    also have "\<dots> = (d ! i)\<^sup>2" using that by simp
    finally show ?thesis .
  qed
  then show ?thesis unfolding quadraticForm_def assms by simp
qed

lemma getLogFunc_no_broadcast:
  assumes "length (INVCOV g) = length (MEAN g)"
    and "\<forall>r \<in> set (INVCOV g). length r = length (MEAN g)"
    and "length point \<noteq> length (MEAN g)" and "length point \<noteq> 1"
  shows "getLogFunc rnd g point = Inl ValueError"
proof (cases "length (MEAN g) = 1")
  case False
  then have "np_subtract rnd (MEAN g) point = Inl ValueError"
    using assms by (simp add: np_subtract_def)
  then show ?thesis by (simp add: getLogFunc_def)
next
  case True
  then have sub: "np_subtract rnd (MEAN g) point = Inr (map (\<lambda>y. fsub rnd (hd (MEAN g)) y) point)"
    using assms by (simp add: np_subtract_def)
  from True assms(1) obtain r where r: "r \<in> set (INVCOV g)"
    by (cases "INVCOV g") auto
  with assms(2) True have "length r = 1" by simp
  with assms(4) have "length r \<noteq> length point" by simp
  with r have "\<not> (\<forall>r \<in> set (INVCOV g). length r = length point)" by blast
  then have "np_matmul rnd (INVCOV g) (map (\<lambda>y. fsub rnd (hd (MEAN g)) y) point) = Inl ValueError"
    by (simp add: np_matmul_def)
  then show ?thesis by (simp add: getLogFunc_def sub)
qed

lemma getLogFunc_broadcast:
  assumes "length (INVCOV g) = length (MEAN g)"
    and "\<forall>r \<in> set (INVCOV g). length r = length (MEAN g)"
    and "length point = 1"
  shows "\<exists>v. getLogFunc rnd g point = Inr v"
proof -
  obtain d where sub: "np_subtract rnd (MEAN g) point = Inr d" and len: "length d = length (MEAN g)"
    using assms(3) by (cases "length (MEAN g) = 1") (simp_all add: np_subtract_def)
  have mm: "np_matmul rnd (INVCOV g) d = Inr (map (\<lambda>r. row_times rnd r d) (INVCOV g))"
    using assms(2) len by (simp add: np_matmul_def)
  have "length d = length (map (\<lambda>r. row_times rnd r d) (INVCOV g))"
    using assms(1) len by simp
  then obtain q where "np_dot rnd d (map (\<lambda>r. row_times rnd r d) (INVCOV g)) = Inr q"
    by (simp add: np_dot_def)
  then show ?thesis by (simp add: getLogFunc_def sub mm)
qed

lemma notebook_module_exact:
  "notebook_module exact =
     Inr \<lparr>NDIM = 4, MEAN = np_zeros 4, COVMAT = eye 4, INVCOV = map (map Fin) (eye 4),
          MVN_COEF = Fin (- 2 * ln (2 * pi))\<rparr>"
  unfolding notebook_module_def using init_module_eye [of 4 "np_zeros 4"] by simp

lemma init_module_square:
  assumes "init_module rnd n mean covmat = Inr g"
  shows "square covmat \<and> det covmat \<noteq> 0"
proof (rule ccontr)
  assume "\<not> (square covmat \<and> det covmat \<noteq> 0)"
  then have "np_linalg_inv rnd covmat = Inl LinAlgError"
    by (auto simp add: np_linalg_inv_def)
  then show False using assms by (simp add: init_module_def)
qed

lemma MVN_COEF_exact:
  assumes "init_module exact n mean covmat = Inr g"
    and "0 < det covmat"
    and "length covmat \<le> 4 \<or> det (inverse_matrix covmat) = 1 / det covmat"
  shows "MVN_COEF g = Fin (- (real n / 2) * ln (2 * pi) - 1 / 2 * ln (det covmat))"
proof -
  have sq: "square covmat" and nz: "det covmat \<noteq> 0"
    using init_module_square [OF assms(1)] by simp_all
  have di: "det (inverse_matrix covmat) = 1 / det covmat"
    using assms(3) det_inverse_matrix_small [OF sq _ nz] by blast
  have pos: "0 < det (inverse_matrix covmat)" using assms(2) di by simp
  have "ln (det (inverse_matrix covmat)) = - ln (det covmat)"
    using assms(2) di by (simp add: ln_div)
  then show ?thesis
    using assms(1) init_module_exact [OF sq nz pos, of n mean] by auto
qed

lemma getLogFunc_exact_at_zero:
  "(\<exists>g. init_module exact n (np_zeros n) (eye n) = Inr g \<and>
        getLogFunc exact g (np_zeros n) = Inr (Fin (- (real n / 2) * ln (2 * pi)))) \<and>
   (\<exists>g. notebook_module exact = Inr g \<and>
        getLogFunc exact g (np_zeros 4) = Inr (Fin (- (4 / 2) * ln (2 * pi))))"
proof -
  have z: "quadraticForm (map (\<lambda>(x, y). x - y) (replicate k (0, 0))) (eye k) = 0" for k
    by (simp add: quadraticForm_eye [of _ k])
  have "getLogFunc exact
          \<lparr>NDIM = k, MEAN = np_zeros k, COVMAT = eye k, INVCOV = map (map Fin) (eye k),
           MVN_COEF = Fin (- (real k / 2) * ln (2 * pi))\<rparr> (np_zeros k) =
        Inr (Fin (- (real k / 2) * ln (2 * pi)))" for k
    unfolding np_zeros_Fin
    using getLogFunc_exact_value [of _ "replicate k 0" "eye k" "- (real k / 2) * ln (2 * pi)" k
        "replicate k 0"]
    by (simp add: z length_eye rows_eye del: map_replicate)
  from this [of n] this [of 4] show ?thesis
    by (simp add: init_module_eye notebook_module_def)
qed

lemma quadratic_exact:
  assumes "length d = n" and "length ic = n" and "\<forall>r \<in> set ic. length r = n"
  shows "(case np_matmul exact (map (map Fin) ic) (map Fin d) of
            Inl e \<Rightarrow> Inl e
          | Inr w \<Rightarrow> (case np_dot exact (map Fin d) w of Inl e \<Rightarrow> Inl e | Inr q \<Rightarrow> Inr (F q))) =
         (Inr (F (Fin (quadraticForm d ic))) :: error + 'a)"
proof -
  have mm: "np_matmul exact (map (map Fin) ic) (map Fin d) =
            Inr (map Fin (map (\<lambda>r. \<Sum>j<n. r ! j * d ! j) ic))"
    using assms np_matmul_exact [of ic d] by simp
  have dt: "np_dot exact (map Fin d) (map Fin (map (\<lambda>r. \<Sum>j<n. r ! j * d ! j) ic)) =
            Inr (Fin (\<Sum>i<n. d ! i * (\<Sum>j<n. ic ! i ! j * d ! j)))"
    using assms np_dot_exact [of d "map (\<lambda>r. \<Sum>j<n. r ! j * d ! j) ic"] by simp
  have q: "(\<Sum>i<n. d ! i * (\<Sum>j<n. ic ! i ! j * d ! j)) = quadraticForm d ic"
    unfolding quadraticForm_def assms(1) by (simp add: sum_distrib_left mult.assoc)
  show ?thesis unfolding mm sum.case dt q ..
qed

lemma quadraticForm_swap:
  assumes "length x = length m"
  shows "quadraticForm (map2 (-) x m) ic = quadraticForm (map2 (-) m x) ic"
  unfolding quadraticForm_def using assms
  by (auto intro!: sum.cong simp add: algebra_simps)

lemma mvn_pdf_exact:
  assumes "square covmat" and "0 < det covmat"
    and "length m = n" and "length covmat = n" and "length x = n"
  shows "mvn_pdf exact \<lparr>mvn_mean = map Fin m, mvn_cov = covmat\<rparr> (map Fin x) =
         Inr (Fin ((2 * pi) powr (- real n / 2) * det covmat powr (- 1 / 2) *
                   exp (- 1 / 2 * quadraticForm (map2 (-) x m) (inverse_matrix covmat))))"
proof -
  let ?d = "map2 (-) x m"
  have inv: "np_linalg_inv exact covmat = Inr (map (map Fin) (inverse_matrix covmat))"
    using assms by (simp add: np_linalg_inv_exact)
  have dt: "np_linalg_det exact (map (map Fin) covmat) = Inr (Fin (det covmat))"
    using assms by (simp add: np_linalg_det_exact)
  have sub: "np_subtract exact (map Fin x) (map Fin m) = Inr (map Fin ?d)"
    using assms by (simp add: np_subtract_exact del: map_map)
  have q: "(case np_matmul exact (map (map Fin) (inverse_matrix covmat)) (map Fin ?d) of
            Inl e \<Rightarrow> Inl e
          | Inr w \<Rightarrow> (case np_dot exact (map Fin ?d) w of Inl e \<Rightarrow> Inl e | Inr q \<Rightarrow> Inr (F q))) =
         (Inr (F (Fin (quadraticForm ?d (inverse_matrix covmat)))) :: error + npfloat)" for F
    using assms by (intro quadratic_exact [where n = n])
      (simp_all add: length_inverse_matrix rows_inverse_matrix)
  have "mvn_pdf exact \<lparr>mvn_mean = map Fin m, mvn_cov = covmat\<rparr> (map Fin x) =
        Inr (fmul exact
                 (fmul exact
                    (np_power exact (fmul exact (Fin 2) (exact pi)) (- real (length (map Fin m)) / 2))
                    (np_power exact (Fin (det covmat)) (- 1 / 2)))
                 (np_exp exact (fmul exact (Fin (- 1 / 2)) (Fin (quadraticForm ?d (inverse_matrix covmat))))))"
    unfolding mvn_pdf_def mvn_frozen.simps inv dt sub sum.case q ..
  then show ?thesis
    using assms(2,3) by (simp add: exact_eq)
qed

lemma np_log_exact_pos: "0 < a \<Longrightarrow> np_log exact (Fin a) = Fin (ln a)"
  by (simp add: exact_eq)

lemma getLogFunc_bad_exact:
  assumes "square covmat" and "0 < det covmat"
    and "length m = n" and "length covmat = n" and "length x = n"
  shows "getLogFunc_bad exact \<lparr>mvn_mean = map Fin m, mvn_cov = covmat\<rparr> (map Fin x) =
         Inr (Fin (- (real n / 2) * ln (2 * pi) - 1 / 2 * ln (det covmat)
                   - 1 / 2 * quadraticForm (map2 (-) x m) (inverse_matrix covmat)))"
proof -
  let ?q = "quadraticForm (map2 (-) x m) (inverse_matrix covmat)"
  let ?A = "(2 * pi) powr (- real n / 2)" and ?B = "det covmat powr (- 1 / 2)"
  have A: "0 < ?A" and B: "0 < ?B" using assms(2) by simp_all
  have "ln (?A * ?B * exp (- 1 / 2 * ?q)) = ln ?A + ln ?B + (- 1 / 2 * ?q)"
    using A B by (simp add: ln_mult)
  moreover have "ln ?A = - real n / 2 * ln (2 * pi)" by (simp add: ln_powr)
  moreover have "ln ?B = - 1 / 2 * ln (det covmat)" using assms(2) by (simp add: ln_powr)
  ultimately have l: "ln (?A * ?B * exp (- 1 / 2 * ?q)) =
      - (real n / 2) * ln (2 * pi) - 1 / 2 * ln (det covmat) - 1 / 2 * ?q" by simp
  have p: "0 < ?A * ?B * exp (- 1 / 2 * ?q)" using A B by simp
  show ?thesis
    unfolding getLogFunc_bad_def mvn_pdf_exact [OF assms] sum.case np_log_exact_pos [OF p] l ..
qed

lemma naive_equals_stable_exact:
  assumes "init_module exact n (map Fin m) covmat = Inr g"
    and "length m = n" and "length covmat = n"
    and "0 < det covmat"
    and "n \<le> 4 \<or> det (inverse_matrix covmat) = 1 / det covmat"
    and "length point = n"
  shows "getLogFunc_bad exact \<lparr>mvn_mean = map Fin m, mvn_cov = covmat\<rparr> (map Fin point) =
         getLogFunc exact g (map Fin point)"
proof -
  have sq: "square covmat" and nz: "det covmat \<noteq> 0"
    using init_module_square [OF assms(1)] by simp_all
  have di: "det (inverse_matrix covmat) = 1 / det covmat"
    using assms(3,5) det_inverse_matrix_small [OF sq _ nz] by blast
  have pos: "0 < det (inverse_matrix covmat)" using assms(4) di by simp
  have g: "g = \<lparr>NDIM = n, MEAN = map Fin m, COVMAT = covmat,
              INVCOV = map (map Fin) (inverse_matrix covmat),
              MVN_COEF = Fin (- (real n / 2) * ln (2 * pi) + 1 / 2 * ln (det (inverse_matrix covmat)))\<rparr>"
    using assms(1) init_module_exact [OF sq nz pos, of n "map Fin m"] by simp
  have l: "ln (det (inverse_matrix covmat)) = - ln (det covmat)"
    using assms(4) di by (simp add: ln_div)
  have "getLogFunc exact g (map Fin point) =
        Inr (Fin (- (real n / 2) * ln (2 * pi) + 1 / 2 * ln (det (inverse_matrix covmat))
                  - 1 / 2 * quadraticForm (map2 (-) m point) (inverse_matrix covmat)))"
    using assms(2,3,6)
    by (intro getLogFunc_exact_value [where n = n])
       (simp_all add: g length_inverse_matrix rows_inverse_matrix)
  moreover have "quadraticForm (map2 (-) point m) (inverse_matrix covmat) =
                 quadraticForm (map2 (-) m point) (inverse_matrix covmat)"
    using assms(2,6) by (simp add: quadraticForm_swap)
  ultimately show ?thesis
    using getLogFunc_bad_exact [OF sq assms(4) assms(2) assms(3) assms(6)] l by simp
qed


section \<open>Double precision\<close>

lemma round_half_even_of_int: "round_half_even (of_int n) = n"
  by (simp add: round_half_even_def)

lemma round_half_even_error: "\<bar>of_int (round_half_even y) - y\<bar> \<le> 1 / 2"
proof -
  have "of_int \<lfloor>y\<rfloor> \<le> y" and "y < of_int \<lfloor>y\<rfloor> + 1" by linarith+
  then show ?thesis
    by (auto simp add: round_half_even_def Let_def abs_le_iff)
qed

lemma quantum_pos: "0 < quantum x"
  by (simp add: quantum_def)

lemma nearest_error: "\<bar>nearest x - x\<bar> \<le> quantum x / 2"
proof (cases "x = 0")
  case True
  then show ?thesis using quantum_pos [of x] by (simp add: nearest_def)
next
  case False
  let ?q = "quantum x"
  have q: "0 < ?q" by (rule quantum_pos)
  have "nearest x - x = ?q * (of_int (round_half_even (x / ?q)) - x / ?q)"
    using False q by (simp add: nearest_def algebra_simps)
  then have "\<bar>nearest x - x\<bar> = ?q * \<bar>of_int (round_half_even (x / ?q)) - x / ?q\<bar>"
    using q by (simp add: abs_mult)
  also have "\<dots> \<le> ?q * (1 / 2)"
    using q round_half_even_error [of "x / ?q"] by (intro mult_left_mono) simp_all
  finally show ?thesis by simp
qed

lemma two_powr_floor_log_le:
  assumes "0 < a"
  shows "2 powr of_int \<lfloor>log 2 a\<rfloor> \<le> a"
proof -
  have "2 powr of_int \<lfloor>log 2 a\<rfloor> \<le> 2 powr log 2 a"
    by (intro powr_mono) simp_all
  then show ?thesis using assms by simp
qed

lemma floor_log_less:
  assumes "0 < a" and "a < 2 powr of_int k"
  shows "\<lfloor>log 2 a\<rfloor> < k"
proof -
  have "log 2 a < of_int k"
    using assms by (simp add: log_less_iff)
  then show ?thesis by linarith
qed

lemma quantum_subnormal:
  assumes "\<bar>x\<bar> < 2 powr (- 1021)" and "x \<noteq> 0"
  shows "quantum x = 2 powr (- 1074)"
proof -
  have "\<lfloor>log 2 \<bar>x\<bar>\<rfloor> < - 1021"
    using assms floor_log_less [of "\<bar>x\<bar>" "- 1021"] by simp
  then have "max \<lfloor>log 2 \<bar>x\<bar>\<rfloor> (- 1022) = - 1022" by simp
  then show ?thesis by (simp add: quantum_def)
qed

lemma quantum_relative:
  assumes "x \<noteq> 0"
  shows "quantum x = 2 powr (- 1074) \<or> quantum x \<le> \<bar>x\<bar> * 2 powr (- 52)"
proof (cases "\<lfloor>log 2 \<bar>x\<bar>\<rfloor> \<le> - 1022")
  case True
  then have "max \<lfloor>log 2 \<bar>x\<bar>\<rfloor> (- 1022) = - 1022" by simp
  then show ?thesis by (simp add: quantum_def)
next
  case False
  then have m: "max \<lfloor>log 2 \<bar>x\<bar>\<rfloor> (- 1022) = \<lfloor>log 2 \<bar>x\<bar>\<rfloor>" by simp
  have "quantum x = 2 powr of_int \<lfloor>log 2 \<bar>x\<bar>\<rfloor> * 2 powr (- 52)"
    unfolding quantum_def m by (simp add: powr_diff powr_minus field_simps)
  also have "\<dots> \<le> \<bar>x\<bar> * 2 powr (- 52)"
    using assms two_powr_floor_log_le [of "\<bar>x\<bar>"] by (intro mult_right_mono) simp_all
  finally show ?thesis by simp
qed

lemma nearest_representable:
  assumes x: "x = of_int m * 2 powr of_int k" and m: "\<bar>m\<bar> < 2 ^ 53" and k: "- 1074 \<le> k"
  shows "nearest x = x"
proof (cases "x = 0")
  case True
  then show ?thesis by (simp add: nearest_def)
next
  case False
  define e where "e = max \<lfloor>log 2 \<bar>x\<bar>\<rfloor> (- 1022) - 52"
  have q: "quantum x = 2 powr of_int e" by (simp add: quantum_def e_def)
  have "\<bar>x\<bar> = of_int \<bar>m\<bar> * 2 powr of_int k" by (simp add: x abs_mult)
  also have "\<dots> < 2 ^ 53 * 2 powr of_int k"
  proof -
    have "(of_int \<bar>m\<bar> :: real) < of_int (2 ^ 53)" using m by (simp only: of_int_less_iff)
    then show ?thesis by (intro mult_strict_right_mono) simp_all
  qed
  also have "\<dots> = 2 powr of_int (53 + k)"
    by (simp add: powr_add powr_realpow [symmetric])
  finally have "\<lfloor>log 2 \<bar>x\<bar>\<rfloor> < 53 + k"
    using False by (intro floor_log_less) simp_all
  then have ek: "e \<le> k" using k by (simp add: e_def)
  have "x / quantum x = x / 2 powr of_int e" by (simp only: q)
  also have "\<dots> = of_int m * 2 powr of_int (k - e)"
    by (simp add: x powr_diff)
  also have "2 powr of_int (k - e) = (2::real) ^ nat (k - e)"
    using ek by (simp add: powr_realpow [symmetric])
  finally have "x / quantum x = of_int (m * 2 ^ nat (k - e))" by simp
  then have "round_half_even (x / quantum x) = m * 2 ^ nat (k - e)"
    by (simp only: round_half_even_of_int)
  then have "nearest x = quantum x * (of_int m * 2 ^ nat (k - e))"
    using False by (simp add: nearest_def)
  also have "\<dots> = 2 powr of_int e * (of_int m * 2 powr of_int (k - e))"
    using ek by (simp add: q powr_realpow [symmetric])
  also have "\<dots> = x"
    by (simp add: x powr_diff)
  finally show ?thesis .
qed

lemma binary64_representable:
  assumes "x = of_int m * 2 powr of_int k" and "\<bar>m\<bar> < 2 ^ 53" and "- 1074 \<le> k"
  shows "binary64 x = (if 2 ^ 1024 \<le> \<bar>x\<bar> then (if 0 < x then PInf else NInf) else Fin x)"
  by (simp add: binary64_def nearest_representable [OF assms])

lemma binary64_of_int:
  assumes "\<bar>m\<bar> < 2 ^ 53"
  shows "binary64 (of_int m) = Fin (of_int m)"
proof -
  have "\<bar>of_int m :: real\<bar> < of_int (2 ^ 53)"
    using assms by (simp only: of_int_abs [symmetric] of_int_less_iff)
  also have "\<dots> \<le> 2 ^ 1024" by simp
  finally have "\<not> 2 ^ 1024 \<le> \<bar>of_int m :: real\<bar>" by simp
  then show ?thesis
    using binary64_representable [of "of_int m" m 0] assms by simp
qed

lemma binary64_zero: "binary64 0 = Fin 0"
  by (simp add: binary64_def nearest_def)

lemma round_half_even_small:
  assumes "\<bar>y\<bar> < 1 / 2"
  shows "round_half_even y = 0"
proof (cases "0 \<le> y")
  case True
  then have "\<lfloor>y\<rfloor> = 0" using assms by (intro floor_unique) simp_all
  then show ?thesis using assms True by (simp add: round_half_even_def)
next
  case False
  then have "\<lfloor>y\<rfloor> = - 1" using assms by (intro floor_unique) simp_all
  then show ?thesis using assms False by (simp add: round_half_even_def)
qed

lemma binary64_underflow:
  assumes "\<bar>x\<bar> < 2 powr (- 1075)"
  shows "binary64 x = Fin 0"
proof (cases "x = 0")
  case True
  then show ?thesis by (simp add: binary64_zero)
next
  case False
  have "(2::real) powr (- 1075) \<le> 2 powr (- 1021)" by (intro powr_mono) simp_all
  with assms have "\<bar>x\<bar> < 2 powr (- 1021)" by (rule less_le_trans)
  then have q: "quantum x = 2 powr (- 1074)" using False by (rule quantum_subnormal)
  have "(2::real) powr (- 1075) = 2 powr (- 1074) * (1 / 2)"
    by (simp add: powr_minus)
  then have "\<bar>x\<bar> / 2 powr (- 1074) < 1 / 2"
    using assms by (simp add: field_simps)
  then have "\<bar>x / quantum x\<bar> < 1 / 2" by (simp add: q)
  then have "round_half_even (x / quantum x) = 0"
    by (rule round_half_even_small)
  then show ?thesis using False by (simp add: binary64_def nearest_def)
qed

lemma binary64_bounded:
  assumes "\<bar>x\<bar> \<le> B" and "1 \<le> B" and "B < huge"
  shows "fin_within (2 * B) (binary64 x)"
proof (cases "x = 0")
  case True
  then show ?thesis using assms(2) by (simp add: binary64_zero fin_within_def)
next
  case False
  have "\<bar>x\<bar> * 2 powr (- 52) \<le> \<bar>x\<bar> * 2 powr 0"
    by (intro mult_left_mono powr_mono) simp_all
  moreover have "(2::real) powr (- 1074) \<le> 2 powr 0" by (intro powr_mono) simp_all
  ultimately have "\<bar>x\<bar> * 2 powr (- 52) \<le> B" and "2 powr (- 1074) \<le> B"
    using assms(1,2) by simp_all
  with quantum_relative [OF False] have "quantum x \<le> B" by auto
  then have "quantum x / 2 \<le> B" using quantum_pos [of x] by simp
  with nearest_error [of x] have "\<bar>nearest x - x\<bar> \<le> B" by simp
  with assms(1) have n: "\<bar>nearest x\<bar> \<le> 2 * B" by simp
  with assms(3) have "\<not> 2 ^ 1024 \<le> \<bar>nearest x\<bar>" by (simp add: huge_def)
  then show ?thesis using n by (simp add: binary64_def fin_within_def)
qed

lemma binary64_positive_range:
  assumes "L \<le> x" and "x \<le> U" and "2 powr (- 1000) \<le> L" and "U < huge"
  shows "\<exists>y. binary64 x = Fin y \<and> L / 2 \<le> y \<and> y \<le> 2 * U"
proof -
  have L: "0 < L" using assms(3) powr_gt_zero [of 2 "- 1000"] by linarith
  then have x: "0 < x" using assms(1) by simp
  have "(2::real) powr (- 1074) = 2 powr (- 1000) * 2 powr (- 74)"
    by (simp add: powr_add [symmetric])
  also have "\<dots> \<le> x * 1"
    using assms(1,3) x by (intro mult_mono) (simp_all add: powr_minus inverse_le_1_iff)
  finally have a: "2 powr (- 1074) \<le> x" by simp
  have "x * 2 powr (- 52) \<le> x * 1"
    using x by (intro mult_left_mono) (simp_all add: powr_minus inverse_le_1_iff)
  then have b: "\<bar>x\<bar> * 2 powr (- 52) \<le> x" using x by simp
  have "quantum x = 2 powr (- 1074) \<or> quantum x \<le> \<bar>x\<bar> * 2 powr (- 52)"
    using x by (intro quantum_relative) simp
  with a b have "quantum x \<le> x" by auto
  with nearest_error [of x] have e: "\<bar>nearest x - x\<bar> \<le> x / 2" by simp
  then have lo: "x / 2 \<le> nearest x" and hi: "nearest x \<le> 2 * x" using x by linarith+
  from hi assms(2,4) lo x have "\<not> 2 ^ 1024 \<le> \<bar>nearest x\<bar>" by (simp add: huge_def)
  then show ?thesis
    using lo hi assms(1,2) by (simp add: binary64_def)
qed

lemma within_Fin: "\<bar>a\<bar> \<le> B \<Longrightarrow> fin_within B (Fin a)"
  by (simp add: fin_within_def)

lemma within_fadd:
  assumes "fin_within A u" and "fin_within B v" and "1 \<le> A + B" and "A + B < huge"
  shows "fin_within (2 * (A + B)) (fadd binary64 u v)"
proof -
  from assms(1,2) obtain a b where "u = Fin a" "\<bar>a\<bar> \<le> A" "v = Fin b" "\<bar>b\<bar> \<le> B"
    by (auto simp add: fin_within_def)
  then show ?thesis
    using binary64_bounded [of "a + b" "A + B"] assms(3,4) by simp
qed

lemma within_fsub:
  assumes "fin_within A u" and "fin_within B v" and "1 \<le> A + B" and "A + B < huge"
  shows "fin_within (2 * (A + B)) (fsub binary64 u v)"
proof -
  from assms(1,2) obtain a b where "u = Fin a" "\<bar>a\<bar> \<le> A" "v = Fin b" "\<bar>b\<bar> \<le> B"
    by (auto simp add: fin_within_def)
  then show ?thesis
    using binary64_bounded [of "a - b" "A + B"] assms(3,4) by (simp add: fsub_def)
qed

lemma within_fmul:
  assumes "fin_within A u" and "fin_within B v" and "1 \<le> A * B" and "A * B < huge"
  shows "fin_within (2 * (A * B)) (fmul binary64 u v)"
proof -
  from assms(1,2) obtain a b where ab: "u = Fin a" "\<bar>a\<bar> \<le> A" "v = Fin b" "\<bar>b\<bar> \<le> B"
    by (auto simp add: fin_within_def)
  then have "\<bar>a * b\<bar> \<le> A * B"
    by (simp add: abs_mult mult_mono)
  then show ?thesis
    using binary64_bounded [of "a * b" "A * B"] assms(3,4) ab by simp
qed

subsection \<open>The notebook in double precision\<close>

lemma binary64_one: "binary64 1 = Fin 1"
  using binary64_of_int [of 1] by simp

lemma binary64_numeral:
  "(numeral w :: int) < 2 ^ 53 \<Longrightarrow> binary64 (numeral w) = Fin (numeral w)"
  using binary64_of_int [of "numeral w"] by simp

lemma binary64_neg_numeral:
  "(numeral w :: int) < 2 ^ 53 \<Longrightarrow> binary64 (- numeral w) = Fin (- numeral w)"
  using binary64_of_int [of "- numeral w"] by simp

lemma map_binary64_eye: "map (map binary64) (eye n) = map (map Fin) (eye n)"
  by (simp add: eye_def binary64_zero binary64_one)

lemma np_linalg_inv_binary64_eye: "np_linalg_inv binary64 (eye n) = Inr (map (map Fin) (eye n))"
  by (simp add: np_linalg_inv_def square_eye det_eye inverse_matrix_eye map_binary64_eye)

lemma np_linalg_det_binary64_eye: "np_linalg_det binary64 (map (map Fin) (eye n)) = Inr (Fin 1)"
  unfolding np_linalg_det_def those_map_map_Fin square_map_map
  by (simp add: square_eye det_eye binary64_one)

lemma notebook_module_binary64:
  "notebook_module binary64 =
     Inr \<lparr>NDIM = 4, MEAN = np_zeros 4, COVMAT = eye 4, INVCOV = map (map Fin) (eye 4),
          MVN_COEF = log_coef binary64 4 (Fin 1)\<rparr>"
  by (simp add: notebook_module_def init_module_def np_linalg_inv_binary64_eye
      np_linalg_det_binary64_eye)

lemma two_pi_binary64:
  "\<exists>t. fmul binary64 (Fin 2) (binary64 pi) = Fin t \<and> 1 \<le> t \<and> t \<le> 32"
proof -
  have "2 \<le> pi" "pi \<le> 4" using pi_ge_two pi_less_4 by simp_all
  then obtain p where p: "binary64 pi = Fin p" "2 / 2 \<le> p" "p \<le> 2 * 4"
    using binary64_positive_range [of 2 pi 4] by (auto simp add: powr_minus huge_def)
  then have "2 \<le> 2 * p" "2 * p \<le> 16" by simp_all
  then obtain t where "binary64 (2 * p) = Fin t" "2 / 2 \<le> t" "t \<le> 2 * 16"
    using binary64_positive_range [of 2 "2 * p" 16] by (auto simp add: powr_minus huge_def)
  then show ?thesis using p by simp
qed

lemma log_coef_binary64:
  "\<exists>c. log_coef binary64 4 (Fin 1) = Fin c \<and> \<bar>c\<bar> \<le> 736"
proof -
  obtain t where t: "fmul binary64 (Fin 2) (binary64 pi) = Fin t" "1 \<le> t" "t \<le> 32"
    using two_pi_binary64 by blast
  have "1 \<le> sqrt t" using t by simp
  moreover have "sqrt t \<le> 6"
  proof -
    have "sqrt t \<le> sqrt (6\<^sup>2)" using t by (intro real_sqrt_le_mono) simp
    then show ?thesis by simp
  qed
  ultimately obtain s where s: "binary64 (sqrt t) = Fin s" "1 / 2 \<le> s" "s \<le> 2 * 6"
    using binary64_positive_range [of 1 "sqrt t" 6] by (auto simp add: powr_minus huge_def)
  have "1 / 12 \<le> 1 / s" "1 / s \<le> 2" using s by (simp_all add: field_simps)
  then obtain u where u: "binary64 (1 / s) = Fin u" "1 / 12 / 2 \<le> u" "u \<le> 2 * 2"
    using binary64_positive_range [of "1 / 12" "1 / s" 2] by (auto simp add: powr_minus huge_def)
  have upos: "0 < u" using u by simp
  have "ln u \<le> u - 1" using upos by (rule ln_le_minus_one)
  moreover have "- ln u \<le> 1 / u - 1"
    using upos ln_le_minus_one [of "1 / u"] by (simp add: ln_div)
  moreover have "1 / u \<le> 24" using u upos by (simp add: field_simps)
  ultimately have "\<bar>ln u\<bar> \<le> 23" using u by simp
  then have l: "fin_within (2 * 23) (binary64 (ln u))"
    by (intro binary64_bounded) (simp_all add: huge_def)
  have a: "np_log binary64 (fdiv binary64 (Fin 1) (np_sqrt binary64 (Fin t))) = binary64 (ln u)"
    using t s u upos by simp
  have b: "np_log binary64 (np_sqrt binary64 (Fin 1)) = Fin 0"
    by (simp add: binary64_one binary64_zero)
  have "fin_within (2 * (4 * (2 * 23))) (fmul binary64 (Fin 4) (binary64 (ln u)))"
    using l by (intro within_fmul within_Fin) (simp_all add: huge_def)
  then have "fin_within (2 * (2 * (4 * (2 * 23)) + 0))
      (fadd binary64 (fmul binary64 (Fin 4) (binary64 (ln u))) (Fin 0))"
    by (intro within_fadd within_Fin) (simp_all add: huge_def)
  then show ?thesis
    unfolding log_coef_def t a b by (simp add: fin_within_def)
qed

lemma within_foldl_fadd:
  assumes "fin_within A acc" and "\<forall>x \<in> set xs. fin_within B x"
    and "0 \<le> A" and "1 \<le> B" and "2 ^ length xs * (A + 2 * B) < huge"
  shows "fin_within (2 ^ length xs * (A + 2 * B)) (foldl (fadd binary64) acc xs)"
  using assms
proof (induction xs arbitrary: A acc)
  case Nil
  then have "A \<le> A + 2 * B" by simp
  with Nil(1) show ?case by (auto simp add: fin_within_def)
next
  case (Cons x xs)
  have b: "2 * (A + B) + 2 * B \<le> 2 * (A + 2 * B)" using Cons.prems by simp
  define K where "K = 2 ^ length (x # xs) * (A + 2 * B)"
  have "(1::real) \<le> 2 ^ length (x # xs)" by (rule one_le_power) simp
  then have "1 * (A + 2 * B) \<le> K"
    unfolding K_def using Cons.prems(3,4) by (intro mult_right_mono) simp_all
  then have "A + 2 * B \<le> K" by simp
  moreover have "K < huge" unfolding K_def by (rule Cons.prems(5))
  ultimately have small: "A + B < huge" using Cons.prems(3,4) by linarith
  have step: "fin_within (2 * (A + B)) (fadd binary64 acc x)"
    using Cons.prems small by (intro within_fadd) simp_all
  have eq: "2 ^ length xs * (2 * (A + B) + 2 * B) = 2 ^ length (x # xs) * (A + 2 * B)"
    by (simp add: algebra_simps)
  have "fin_within (2 ^ length xs * (2 * (A + B) + 2 * B))
          (foldl (fadd binary64) (fadd binary64 acc x) xs)"
  proof (rule Cons.IH [OF step])
    show "\<forall>x \<in> set xs. fin_within B x" using Cons.prems(2) by simp
    show "0 \<le> 2 * (A + B)" using Cons.prems(3,4) by simp
    show "1 \<le> B" by (rule Cons.prems(4))
    show "2 ^ length xs * (2 * (A + B) + 2 * B) < huge"
      unfolding eq by (rule Cons.prems(5))
  qed
  then show ?case unfolding eq by simp
qed

lemma within_map2_fmul:
  assumes "\<forall>x \<in> set xs. fin_within A x" and "\<forall>y \<in> set ys. fin_within B y"
    and "1 \<le> A * B" and "A * B < huge"
  shows "\<forall>z \<in> set (map2 (fmul binary64) xs ys). fin_within (2 * (A * B)) z"
proof
  fix z assume "z \<in> set (map2 (fmul binary64) xs ys)"
  then obtain x y where z: "z = fmul binary64 x y" and "(x, y) \<in> set (zip xs ys)" by auto
  then have "x \<in> set xs" "y \<in> set ys" by (auto dest: set_zip_leftD set_zip_rightD)
  then have "fin_within A x" "fin_within B y" using assms(1,2) by simp_all
  then show "fin_within (2 * (A * B)) z"
    unfolding z using assms(3,4) by (rule within_fmul)
qed

lemma within_map2_fsub:
  assumes "\<forall>x \<in> set xs. fin_within A x" and "\<forall>y \<in> set ys. fin_within B y"
    and "1 \<le> A + B" and "A + B < huge"
  shows "\<forall>z \<in> set (map2 (fsub binary64) xs ys). fin_within (2 * (A + B)) z"
proof
  fix z assume "z \<in> set (map2 (fsub binary64) xs ys)"
  then obtain x y where z: "z = fsub binary64 x y" and "(x, y) \<in> set (zip xs ys)" by auto
  then have "x \<in> set xs" "y \<in> set ys" by (auto dest: set_zip_leftD set_zip_rightD)
  then have "fin_within A x" "fin_within B y" using assms(1,2) by simp_all
  then show "fin_within (2 * (A + B)) z"
    unfolding z using assms(3,4) by (rule within_fsub)
qed

lemma within_eye: "r \<in> set (map (map Fin) (eye n)) \<Longrightarrow> \<forall>x \<in> set r. fin_within 1 x"
  by (auto simp add: eye_def fin_within_def)

lemma getLogFunc_binary64_finite:
  assumes "length point = 4" and "\<forall>v \<in> set point. fin_within (2 ^ 500) v"
    and "fin_within 736 c"
  shows "\<exists>r. getLogFunc binary64
           \<lparr>NDIM = 4, MEAN = np_zeros 4, COVMAT = eye 4, INVCOV = map (map Fin) (eye 4),
            MVN_COEF = c\<rparr> point = Inr (Fin r)"
proof -
  define d where "d = map2 (fsub binary64) (np_zeros 4) point"
  define w where "w = map (\<lambda>r. row_times binary64 r d) (map (map Fin) (eye 4))"
  define q where "q = foldl (fadd binary64) (Fin 0) (map2 (fmul binary64) d w)"
  have ld: "length d = 4" using assms(1) by (simp add: d_def np_zeros_def)
  have sub: "np_subtract binary64 (np_zeros 4) point = Inr d"
    using assms(1) by (simp add: np_subtract_def d_def np_zeros_def)
  have mm: "np_matmul binary64 (map (map Fin) (eye 4)) d = Inr w"
    using ld by (simp add: np_matmul_def w_def rows_eye)
  have dt: "np_dot binary64 d w = Inr q"
    using ld by (simp add: np_dot_def q_def w_def length_eye)
  have "\<forall>x \<in> set (np_zeros 4). fin_within 0 x"
    by (simp add: np_zeros_def fin_within_def)
  then have d: "\<forall>z \<in> set d. fin_within (2 * (0 + 2 ^ 500)) z"
    unfolding d_def using assms(2) by (intro within_map2_fsub) (simp_all add: huge_def)
  have w: "\<forall>z \<in> set w. fin_within (2 ^ 507) z"
  proof
    fix z assume "z \<in> set w"
    then obtain r where r: "r \<in> set (map (map Fin) (eye 4))" and z: "z = row_times binary64 r d"
      by (auto simp add: w_def)
    have lr: "length r = 4" using r by (auto simp add: rows_eye)
    have "\<forall>p \<in> set (map2 (fmul binary64) r d). fin_within (2 * (1 * (2 * (0 + 2 ^ 500)))) p"
      using within_eye [OF r] d by (intro within_map2_fmul) (simp_all add: huge_def)
    then have "fin_within (2 ^ length (map2 (fmul binary64) r d) *
                 (0 + 2 * (2 * (1 * (2 * (0 + 2 ^ 500))))))
               (foldl (fadd binary64) (Fin 0) (map2 (fmul binary64) r d))"
      by (intro within_foldl_fadd) (simp_all add: lr ld fin_within_def huge_def)
    then show "fin_within (2 ^ 507) z"
      by (simp add: z row_times_def lr ld)
  qed
  have "\<forall>p \<in> set (map2 (fmul binary64) d w). fin_within (2 * ((2 * (0 + 2 ^ 500)) * 2 ^ 507)) p"
    using d w by (intro within_map2_fmul) (simp_all add: huge_def)
  then have "fin_within (2 ^ length (map2 (fmul binary64) d w) *
                 (0 + 2 * (2 * ((2 * (0 + 2 ^ 500)) * 2 ^ 507)))) q"
    unfolding q_def
    by (intro within_foldl_fadd) (simp_all add: ld w_def length_eye fin_within_def huge_def)
  then have q: "fin_within (2 ^ 1014) q"
    by (simp add: ld w_def length_eye)
  have "fin_within (2 * (1 * 2 ^ 1014)) (fmul binary64 (Fin (1 / 2)) q)"
    using q by (intro within_fmul within_Fin) (simp_all add: huge_def)
  then have "fin_within (2 * (736 + 2 * (1 * 2 ^ 1014))) (fsub binary64 c (fmul binary64 (Fin (1 / 2)) q))"
    using assms(3) by (intro within_fsub) (simp_all add: huge_def)
  then show ?thesis
    by (auto simp add: getLogFunc_def sub mm dt fin_within_def)
qed

lemma notebook_module_exact_eq: "notebook_module exact = Inr notebook_exact"
  by (simp add: notebook_module_exact notebook_exact_def)

lemma notebook_module_binary64_eq: "notebook_module binary64 = Inr notebook_binary64"
  by (simp add: notebook_module_binary64 notebook_binary64_def)

lemma binary64_pow2:
  assumes "k < 1024"
  shows "binary64 (2 ^ k) = Fin (2 ^ k)" and "binary64 (- (2 ^ k)) = Fin (- (2 ^ k))"
proof -
  have "(2::real) ^ k < 2 ^ 1024" using assms by (intro power_strict_increasing) simp_all
  then have a: "\<not> 2 ^ 1024 \<le> \<bar>(2::real) ^ k\<bar>" by simp
  show "binary64 (2 ^ k) = Fin (2 ^ k)"
    using binary64_representable [of "2 ^ k" 1 "int k"] a by (simp add: powr_realpow)
  show "binary64 (- (2 ^ k)) = Fin (- (2 ^ k))"
    using binary64_representable [of "- (2 ^ k)" "- 1" "int k"] a by (simp add: powr_realpow)
qed

lemma binary64_pow2_overflow:
  assumes "1024 \<le> k"
  shows "binary64 (2 ^ k) = PInf"
proof -
  have "(2::real) ^ 1024 \<le> 2 ^ k" using assms by (intro power_increasing) simp_all
  then have a: "2 ^ 1024 \<le> \<bar>(2::real) ^ k\<bar>" by simp
  show ?thesis
    using binary64_representable [of "2 ^ k" 1 "int k"] a by (simp add: powr_realpow)
qed

lemma sub4:
  "np_subtract rnd (np_zeros 4) [a, b, c, d] =
   Inr [fsub rnd (Fin 0) a, fsub rnd (Fin 0) b, fsub rnd (Fin 0) c, fsub rnd (Fin 0) d]"
  by (simp add: np_subtract_def np_zeros_def numeral_nat)

lemma matmul4:
  "np_matmul rnd (map (map Fin) (eye 4)) [a, b, c, d] =
   Inr [fadd rnd (fadd rnd (fadd rnd (fadd rnd (Fin 0) (fmul rnd (Fin 1) a)) (fmul rnd (Fin 0) b))
            (fmul rnd (Fin 0) c)) (fmul rnd (Fin 0) d),
        fadd rnd (fadd rnd (fadd rnd (fadd rnd (Fin 0) (fmul rnd (Fin 0) a)) (fmul rnd (Fin 1) b))
            (fmul rnd (Fin 0) c)) (fmul rnd (Fin 0) d),
        fadd rnd (fadd rnd (fadd rnd (fadd rnd (Fin 0) (fmul rnd (Fin 0) a)) (fmul rnd (Fin 0) b))
            (fmul rnd (Fin 1) c)) (fmul rnd (Fin 0) d),
        fadd rnd (fadd rnd (fadd rnd (fadd rnd (Fin 0) (fmul rnd (Fin 0) a)) (fmul rnd (Fin 0) b))
            (fmul rnd (Fin 0) c)) (fmul rnd (Fin 1) d)]"
  by (simp add: np_matmul_def row_times_def eye_def upt_rec numeral_nat)

lemma dot4:
  "np_dot rnd [a, b, c, d] [a', b', c', d'] =
   Inr (fadd rnd (fadd rnd (fadd rnd (fadd rnd (Fin 0) (fmul rnd a a')) (fmul rnd b b'))
            (fmul rnd c c')) (fmul rnd d d'))"
  by (simp add: np_dot_def)

lemma round_half_even_abs_le:
  assumes "\<bar>y\<bar> < of_int N"
  shows "\<bar>round_half_even y\<bar> \<le> N"
proof -
  have "\<bar>of_int (round_half_even y) - y\<bar> \<le> 1 / 2" by (rule round_half_even_error)
  then have "\<bar>of_int (round_half_even y) :: real\<bar> < of_int N + 1" using assms by linarith
  then have "(of_int \<bar>round_half_even y\<bar> :: real) < of_int (N + 1)" by simp
  then have "\<bar>round_half_even y\<bar> < N + 1" by (simp only: of_int_less_iff)
  then show ?thesis by simp
qed

lemma representable_nearest: "representable (nearest x)"
proof (cases "x = 0")
  case True
  have "representable 0"
    unfolding representable_def by (rule exI [of _ 0], rule exI [of _ 0]) simp
  then show ?thesis using True by (simp add: nearest_def)
next
  case False
  define e where "e = max \<lfloor>log 2 \<bar>x\<bar>\<rfloor> (- 1022)"
  define n where "n = round_half_even (x / quantum x)"
  have q: "quantum x = 2 powr of_int (e - 52)" by (simp add: quantum_def e_def)
  have nx: "nearest x = of_int n * 2 powr of_int (e - 52)"
    using False by (simp add: nearest_def n_def q)
  have "log 2 \<bar>x\<bar> < of_int (\<lfloor>log 2 \<bar>x\<bar>\<rfloor> + 1)" by linarith
  also have "\<dots> \<le> of_int (e + 1)" unfolding e_def by (simp only: of_int_le_iff)
  finally have "\<bar>x\<bar> < 2 powr of_int (e + 1)"
    using False by (simp add: less_powr_iff)
  then have "\<bar>x\<bar> / quantum x < 2 powr of_int (e + 1) / 2 powr of_int (e - 52)"
    unfolding q by (intro divide_strict_right_mono) simp_all
  also have "\<dots> = 2 powr 53" by (simp add: powr_diff [symmetric])
  also have "\<dots> = of_int (2 ^ 53)" by (simp add: powr_realpow [symmetric])
  finally have "\<bar>x / quantum x\<bar> < of_int (2 ^ 53)"
    using quantum_pos [of x] by simp
  then have n53: "\<bar>n\<bar> \<le> 2 ^ 53" unfolding n_def by (rule round_half_even_abs_le)
  have k: "- 1074 \<le> e - 52" by (simp add: e_def)
  show ?thesis
  proof (cases "\<bar>n\<bar> < 2 ^ 53")
    case True
    with nx k show ?thesis unfolding representable_def by blast
  next
    case False
    with n53 have "\<bar>n\<bar> = 2 ^ 53" by simp
    then have "n = 2 ^ 53 \<or> n = - (2 ^ 53)" by (auto simp add: abs_if split: if_splits)
    moreover have p53: "(2::real) powr 53 * 2 powr of_int (e - 52) = 2 powr of_int (e + 1)"
    proof -
      have "(2::real) powr 53 * 2 powr of_int (e - 52) = 2 powr (53 + of_int (e - 52))"
        by (simp only: powr_add)
      also have "53 + of_int (e - 52) = (of_int (e + 1) :: real)" by simp
      finally show ?thesis .
    qed
    moreover have "(of_int (2 ^ 53) :: real) = 2 powr 53"
      by (simp add: powr_realpow [symmetric])
    ultimately have "nearest x = of_int 1 * 2 powr of_int (e + 1) \<or>
               nearest x = of_int (- 1) * 2 powr of_int (e + 1)"
      unfolding nx by (auto simp only: of_int_minus of_int_1 mult_minus_left mult_1)
    then show ?thesis
    proof
      assume a: "nearest x = of_int 1 * 2 powr of_int (e + 1)"
      have "\<bar>1::int\<bar> < 2 ^ 53" "- 1074 \<le> e + 1" using k by simp_all
      with a show ?thesis unfolding representable_def by blast
    next
      assume a: "nearest x = of_int (- 1) * 2 powr of_int (e + 1)"
      have "\<bar>- 1::int\<bar> < 2 ^ 53" "- 1074 \<le> e + 1" using k by simp_all
      with a show ?thesis unfolding representable_def by blast
    qed
  qed
qed

lemma nearest_idem: "nearest (nearest x) = nearest x"
proof -
  obtain m k where "nearest x = of_int m * 2 powr of_int k" "\<bar>m\<bar> < 2 ^ 53" "- 1074 \<le> k"
    using representable_nearest [of x] unfolding representable_def by blast
  then show ?thesis by (rule nearest_representable)
qed

lemma binary64_idem:
  assumes "binary64 x = Fin y"
  shows "binary64 y = Fin y"
proof -
  from assms have "\<not> 2 ^ 1024 \<le> \<bar>nearest x\<bar>" and "y = nearest x"
    by (auto simp add: binary64_def Let_def split: if_splits)
  then show ?thesis by (simp add: binary64_def nearest_idem)
qed

lemma log_coef_binary64_Fin:
  obtains c where "log_coef binary64 4 (Fin 1) = Fin c" and "\<bar>c\<bar> \<le> 736"
    and "binary64 c = Fin c"
proof -
  obtain c where c: "log_coef binary64 4 (Fin 1) = Fin c" "\<bar>c\<bar> \<le> 736"
    using log_coef_binary64 by blast
  obtain u where "log_coef binary64 4 (Fin 1) = fadd binary64 u (Fin 0)"
    by (simp add: log_coef_def binary64_one binary64_zero)
  with c(1) obtain a where "binary64 (a + 0) = Fin c"
    by (cases u) simp_all
  then have "binary64 c = Fin c" by (rule binary64_idem)
  with c that show ?thesis by blast
qed

lemma getLogFunc_exact_standard:
  assumes "length p = n"
  shows "getLogFunc exact
           \<lparr>NDIM = n, MEAN = np_zeros n, COVMAT = eye n, INVCOV = map (map Fin) (eye n),
            MVN_COEF = Fin c\<rparr> (map Fin p) = Inr (Fin (c - 1 / 2 * (\<Sum>i<n. (p ! i)\<^sup>2)))"
proof -
  have "(\<Sum>i<n. (map2 (-) (replicate n 0) p ! i)\<^sup>2) = (\<Sum>i<n. (p ! i)\<^sup>2)"
    using assms by (intro sum.cong) simp_all
  then have "quadraticForm (map2 (-) (replicate n 0) p) (eye n) = (\<Sum>i<n. (p ! i)\<^sup>2)"
    using assms by (simp add: quadraticForm_eye [of _ n])
  then show ?thesis
    unfolding np_zeros_Fin
    using assms getLogFunc_exact_value [of _ "replicate n 0" "eye n" c n p]
    by (simp add: length_eye rows_eye del: map_replicate)
qed

lemma getLogFunc_finite_both:
  "(length p = 4 \<longrightarrow>
      getLogFunc exact notebook_exact (map Fin p) =
        Inr (Fin (- 2 * ln (2 * pi) - 1 / 2 * (\<Sum>i<4. (p ! i)\<^sup>2)))) \<and>
   (length p = 4 \<and> (\<forall>a \<in> set p. \<bar>a\<bar> \<le> 2 ^ 500) \<longrightarrow>
      (\<exists>r. getLogFunc binary64 notebook_binary64 (map Fin p) = Inr (Fin r)))"
proof (intro conjI impI)
  assume "length p = 4"
  then show "getLogFunc exact notebook_exact (map Fin p) =
        Inr (Fin (- 2 * ln (2 * pi) - 1 / 2 * (\<Sum>i<4. (p ! i)\<^sup>2)))"
    unfolding notebook_exact_def by (rule getLogFunc_exact_standard)
next
  assume a: "length p = 4 \<and> (\<forall>a \<in> set p. \<bar>a\<bar> \<le> 2 ^ 500)"
  obtain c where c: "log_coef binary64 4 (Fin 1) = Fin c" "\<bar>c\<bar> \<le> 736"
    using log_coef_binary64 by blast
  show "\<exists>r. getLogFunc binary64 notebook_binary64 (map Fin p) = Inr (Fin r)"
    unfolding notebook_binary64_def
    using a c by (intro getLogFunc_binary64_finite) (auto simp add: fin_within_def)
qed

lemma sub4_rev:
  "np_subtract rnd [a, b, c, d] (np_zeros 4) =
   Inr [fsub rnd a (Fin 0), fsub rnd b (Fin 0), fsub rnd c (Fin 0), fsub rnd d (Fin 0)]"
  by (simp add: np_subtract_def np_zeros_def numeral_nat)

lemma exp_underflow: "binary64 (exp (- 200000000)) = Fin 0"
proof (rule binary64_underflow)
  have "ln 2 \<le> (2::real) - 1" by (rule ln_le_minus_one) simp
  then have "(- 200000000 :: real) < - 1075 * ln 2" by simp
  then have "exp (- 200000000 :: real) < exp (- 1075 * ln 2)" by (simp only: exp_less_cancel_iff)
  also have "\<dots> = 2 powr (- 1075)" by (simp add: powr_def)
  finally show "\<bar>exp (- 200000000 :: real)\<bar> < 2 powr (- 1075)" by simp
qed

lemma normalization_binary64:
  "\<exists>k. fmul binary64 (np_power binary64 (fmul binary64 (Fin 2) (binary64 pi)) (- 2))
          (np_power binary64 (Fin 1) (- 1 / 2)) = Fin k"
proof -
  obtain t where t: "fmul binary64 (Fin 2) (binary64 pi) = Fin t" "1 \<le> t" "t \<le> 32"
    using two_pi_binary64 by blast
  have "t powr (- 2) \<le> 1" using t by (simp add: powr_minus field_simps)
  moreover have "0 \<le> t powr (- 2)" by simp
  ultimately have "fin_within (2 * 1) (binary64 (t powr (- 2)))"
    by (intro binary64_bounded) (simp_all add: huge_def)
  then have "fin_within (2 * (2 * 1 * 1)) (fmul binary64 (binary64 (t powr (- 2))) (Fin 1))"
    by (intro within_fmul within_Fin) (simp_all add: huge_def)
  then show ?thesis
    using t by (auto simp add: binary64_one fin_within_def)
qed

lemma getLogFunc_bad_underflow_notebook:
  "np_exp binary64 (Fin (- 200000000)) = Fin 0 \<and>
   getLogFunc_bad binary64 notebook_mvn [Fin 10000, Fin 10000, Fin 10000, Fin 10000] = Inr NInf \<and>
   (\<exists>r. getLogFunc binary64 notebook_binary64 [Fin 10000, Fin 10000, Fin 10000, Fin 10000] =
      Inr (Fin r))"
proof (intro conjI)
  show "np_exp binary64 (Fin (- 200000000)) = Fin 0" by (simp add: exp_underflow)
next
  obtain k where k: "fmul binary64 (np_power binary64 (fmul binary64 (Fin 2) (binary64 pi)) (- 2))
          (np_power binary64 (Fin 1) (- 1 / 2)) = Fin k"
    using normalization_binary64 by blast
  have q: "(case np_subtract binary64 [Fin 10000, Fin 10000, Fin 10000, Fin 10000] (np_zeros 4) of
             Inl e \<Rightarrow> Inl e
           | Inr dev \<Rightarrow> (case np_matmul binary64 (map (map Fin) (eye 4)) dev of
               Inl e \<Rightarrow> Inl e
             | Inr w \<Rightarrow> (case np_dot binary64 dev w of Inl e \<Rightarrow> Inl e | Inr q \<Rightarrow> Inr (F q)))) =
           (Inr (F (Fin 400000000)) :: error + npfloat)" for F
    by (simp add: sub4_rev matmul4 dot4 fsub_def binary64_zero binary64_numeral)
  have "mvn_pdf binary64 notebook_mvn [Fin 10000, Fin 10000, Fin 10000, Fin 10000] =
        Inr (fmul binary64 (Fin k) (np_exp binary64 (fmul binary64 (Fin (- 1 / 2)) (Fin 400000000))))"
    unfolding mvn_pdf_def notebook_mvn_def mvn_frozen.simps np_linalg_inv_binary64_eye
      np_linalg_det_binary64_eye sum.case q
    using k by (simp add: np_zeros_def)
  also have "\<dots> = Inr (Fin 0)"
    by (simp add: binary64_neg_numeral exp_underflow binary64_zero)
  finally show "getLogFunc_bad binary64 notebook_mvn [Fin 10000, Fin 10000, Fin 10000, Fin 10000] =
      Inr NInf"
    by (simp add: getLogFunc_bad_def)
next
  have "(10000::real) \<le> 2 ^ 14" by simp
  also have "\<dots> \<le> 2 ^ 500" by (intro power_increasing) simp_all
  finally have b: "(10000::real) \<le> 2 ^ 500" .
  obtain c where c: "log_coef binary64 4 (Fin 1) = Fin c" "\<bar>c\<bar> \<le> 736"
    using log_coef_binary64 by blast
  show "\<exists>r. getLogFunc binary64 notebook_binary64
          [Fin 10000, Fin 10000, Fin 10000, Fin 10000] = Inr (Fin r)"
    unfolding notebook_binary64_def
    using b c by (intro getLogFunc_binary64_finite) (auto simp add: fin_within_def)
qed

lemma sum_squares_zero_iff:
  assumes "length p = n"
  shows "(\<Sum>i<n. (p ! i)\<^sup>2) = 0 \<longleftrightarrow> p = replicate n (0::real)"
proof -
  have "(\<Sum>i<n. (p ! i)\<^sup>2) = 0 \<longleftrightarrow> (\<forall>i \<in> {..<n}. (p ! i)\<^sup>2 = 0)"
    by (intro sum_nonneg_eq_0_iff) simp_all
  also have "\<dots> \<longleftrightarrow> (\<forall>i<n. p ! i = 0)" by auto
  also have "\<dots> \<longleftrightarrow> p = replicate n 0"
    using assms by (auto simp add: list_eq_iff_nth_eq)
  finally show ?thesis .
qed

lemma getLogFunc_exact_le:
  assumes "length p = 4"
  shows "\<exists>v c. MVN_COEF notebook_exact = Fin c \<and>
           getLogFunc exact notebook_exact (map Fin p) = Inr (Fin v) \<and>
           v \<le> c \<and> (v = c \<longleftrightarrow> map Fin p = MEAN notebook_exact)"
proof -
  let ?c = "- 2 * ln (2 * pi)" and ?s = "\<Sum>i<4. (p ! i)\<^sup>2"
  have v: "getLogFunc exact notebook_exact (map Fin p) = Inr (Fin (?c - 1 / 2 * ?s))"
    unfolding notebook_exact_def using assms by (rule getLogFunc_exact_standard)
  have "0 \<le> ?s" by (intro sum_nonneg) simp
  then have le: "?c - 1 / 2 * ?s \<le> ?c" by simp
  have "map Fin p = map Fin (replicate 4 0) \<longleftrightarrow> p = replicate 4 0"
    by (intro inj_map_eq_map) (simp add: inj_on_def)
  then have "map Fin p = MEAN notebook_exact \<longleftrightarrow> ?s = 0"
    using sum_squares_zero_iff [OF assms] by (simp add: notebook_exact_def np_zeros_Fin del: map_replicate)
  then have "(?c - 1 / 2 * ?s = ?c) \<longleftrightarrow> map Fin p = MEAN notebook_exact" by simp
  with v le show ?thesis
    by (simp add: notebook_exact_def)
qed

lemma round_half_even_le:
  assumes "y \<le> of_int N"
  shows "round_half_even y \<le> N"
proof (cases "\<lfloor>y\<rfloor> = N")
  case True
  then have "of_int N \<le> y" by (metis of_int_floor_le)
  with assms have "y = of_int N" by simp
  then show ?thesis by (simp add: round_half_even_of_int)
next
  case False
  have "\<lfloor>y\<rfloor> \<le> N" using assms by (simp add: floor_le_iff)
  with False have "\<lfloor>y\<rfloor> + 1 \<le> N" by simp
  then show ?thesis by (simp add: round_half_even_def Let_def)
qed

lemma round_half_even_minus: "round_half_even (- y) = - round_half_even y"
proof (cases "y \<in> \<int>")
  case True
  then obtain n where "y = of_int n" by (auto elim: Ints_cases)
  then have "- y = of_int (- n)" by simp
  then show ?thesis
    using \<open>y = of_int n\<close> by (simp only: round_half_even_of_int)
next
  case False
  have lt: "of_int \<lfloor>y\<rfloor> < y"
    using False by (metis Ints_of_int of_int_floor_le order_less_le)
  have ub: "y < of_int \<lfloor>y\<rfloor> + 1" by linarith
  have f: "\<lfloor>- y\<rfloor> = - \<lfloor>y\<rfloor> - 1"
  proof (rule floor_unique)
    have "of_int (- \<lfloor>y\<rfloor> - 1) = - of_int \<lfloor>y\<rfloor> - (1::real)" by simp
    then show "of_int (- \<lfloor>y\<rfloor> - 1) \<le> - y" using ub by linarith
    have "of_int (- \<lfloor>y\<rfloor> - 1) + 1 = - (of_int \<lfloor>y\<rfloor> :: real)" by simp
    then show "- y < of_int (- \<lfloor>y\<rfloor> - 1) + 1" using lt by linarith
  qed
  show ?thesis
    unfolding round_half_even_def Let_def f
    using lt by (auto simp add: algebra_simps)
qed

lemma quantum_minus: "quantum (- x) = quantum x"
  by (simp add: quantum_def)

lemma nearest_minus: "nearest (- x) = - nearest x"
  by (simp add: nearest_def quantum_minus round_half_even_minus)

lemma abs_less_next_binade:
  assumes "x \<noteq> 0"
  shows "\<bar>x\<bar> < 2 powr of_int (max \<lfloor>log 2 \<bar>x\<bar>\<rfloor> (- 1022) + 1)"
proof -
  have "log 2 \<bar>x\<bar> < of_int (\<lfloor>log 2 \<bar>x\<bar>\<rfloor> + 1)" by linarith
  also have "\<dots> \<le> of_int (max \<lfloor>log 2 \<bar>x\<bar>\<rfloor> (- 1022) + 1)" by (simp only: of_int_le_iff)
  finally show ?thesis using assms by (simp add: less_powr_iff)
qed

lemma nearest_le_representable:
  assumes "x \<le> c" and c: "c = of_int m * 2 powr of_int k" and m: "\<bar>m\<bar> < 2 ^ 53"
    and k: "- 1074 \<le> k"
  shows "nearest x \<le> c"
proof (cases "x = 0")
  case True
  then show ?thesis using assms(1) by (simp add: nearest_def)
next
  case False
  define e where "e = max \<lfloor>log 2 \<bar>x\<bar>\<rfloor> (- 1022)"
  have q: "quantum x = 2 powr of_int (e - 52)" by (simp add: quantum_def e_def)
  have qpos: "0 < quantum x" by (rule quantum_pos)
  have nx: "nearest x = quantum x * of_int (round_half_even (x / quantum x))"
    using False by (simp add: nearest_def)
  show ?thesis
  proof (cases "e - 52 \<le> k")
    case True
    have "c / quantum x = of_int m * 2 powr of_int (k - (e - 52))"
      unfolding c q by (simp add: powr_diff)
    also have "2 powr of_int (k - (e - 52)) = (2::real) ^ nat (k - (e - 52))"
      using True by (simp add: powr_realpow [symmetric])
    finally have cq: "c / quantum x = of_int (m * 2 ^ nat (k - (e - 52)))" by simp
    have "x / quantum x \<le> c / quantum x"
      using assms(1) qpos by (simp add: divide_right_mono)
    then have "round_half_even (x / quantum x) \<le> m * 2 ^ nat (k - (e - 52))"
      unfolding cq by (rule round_half_even_le)
    then have "(of_int (round_half_even (x / quantum x)) :: real) \<le> of_int (m * 2 ^ nat (k - (e - 52)))"
      by (simp only: of_int_le_iff)
    then have "nearest x \<le> quantum x * (c / quantum x)"
      unfolding nx cq using qpos by (intro mult_left_mono) simp_all
    then show ?thesis using qpos by simp
  next
    case False
    then have ke: "k \<le> e - 53" by simp
    with k have "- 1022 < e" by simp
    then have el: "e = \<lfloor>log 2 \<bar>x\<bar>\<rfloor>" by (simp add: e_def max_def split: if_splits)
    have lo: "2 powr of_int e \<le> \<bar>x\<bar>"
      unfolding el using \<open>x \<noteq> 0\<close> by (intro two_powr_floor_log_le) simp
    have "\<bar>c\<bar> = of_int \<bar>m\<bar> * 2 powr of_int k" by (simp add: c abs_mult)
    also have "\<dots> \<le> of_int \<bar>m\<bar> * 2 powr of_int (e - 53)"
      using ke by (intro mult_left_mono powr_mono) simp_all
    also have "\<dots> < 2 powr 53 * 2 powr of_int (e - 53)"
    proof -
      have "(of_int \<bar>m\<bar> :: real) < of_int (2 ^ 53)" using m by (simp only: of_int_less_iff)
      also have "(of_int (2 ^ 53) :: real) = 2 powr 53" by (simp add: powr_realpow [symmetric])
      finally show ?thesis by (intro mult_strict_right_mono) simp_all
    qed
    also have "\<dots> = 2 powr (53 + of_int (e - 53))" by (simp only: powr_add)
    also have "53 + of_int (e - 53) = (of_int e :: real)" by simp
    finally have clt: "\<bar>c\<bar> < 2 powr of_int e" .
    with lo have "\<bar>c\<bar> < \<bar>x\<bar>" by simp
    with assms(1) have xneg: "x < 0" by linarith
    with lo have "x \<le> - (2 powr of_int e)" by simp
    then have "x / quantum x \<le> - (2 powr of_int e) / quantum x"
      using qpos by (intro divide_right_mono) simp_all
    also have "- (2 powr of_int e) / quantum x = - (2 powr (of_int e - of_int (e - 52)))"
      unfolding q by (simp only: powr_diff minus_divide_left)
    also have "of_int e - of_int (e - 52) = (52 :: real)" by simp
    also have "- ((2::real) powr 52) = of_int (- (2 ^ 52))" by (simp add: powr_realpow [symmetric])
    finally have "round_half_even (x / quantum x) \<le> - (2 ^ 52)" by (rule round_half_even_le)
    then have "(of_int (round_half_even (x / quantum x)) :: real) \<le> of_int (- (2 ^ 52))"
      by (simp only: of_int_le_iff)
    then have "nearest x \<le> quantum x * of_int (- (2 ^ 52))"
      unfolding nx using qpos by (intro mult_left_mono) simp_all
    also have "quantum x * of_int (- (2 ^ 52)) = - (2 powr of_int (e - 52) * 2 powr 52)"
      unfolding q by (simp add: powr_realpow [symmetric])
    also have "2 powr of_int (e - 52) * 2 powr 52 = (2::real) powr (of_int (e - 52) + 52)"
      by (simp only: powr_add)
    also have "of_int (e - 52) + 52 = (of_int e :: real)" by simp
    finally have "nearest x \<le> - (2 powr of_int e)" .
    with clt show ?thesis by linarith
  qed
qed

lemma nearest_ge_representable:
  assumes "c \<le> x" and "c = of_int m * 2 powr of_int k" and "\<bar>m\<bar> < 2 ^ 53" and "- 1074 \<le> k"
  shows "c \<le> nearest x"
proof -
  have "nearest (- x) \<le> - c"
    using assms by (intro nearest_le_representable [where m = "- m" and k = k]) simp_all
  then show ?thesis by (simp add: nearest_minus)
qed

lemma nearest_nonneg: "0 \<le> x \<Longrightarrow> 0 \<le> nearest x"
  using nearest_ge_representable [of 0 x 0 0] by simp

lemma nearest_nonpos: "x \<le> 0 \<Longrightarrow> nearest x \<le> 0"
  using nearest_le_representable [of x 0 0 0] by simp

lemma double_form:
  assumes "binary64 a = Fin a"
  shows "representable a" and "\<bar>a\<bar> < 2 ^ 1024"
proof -
  from assms have n: "nearest a = a" and "\<not> 2 ^ 1024 \<le> \<bar>nearest a\<bar>"
    by (auto simp add: binary64_def Let_def split: if_splits)
  then show "\<bar>a\<bar> < 2 ^ 1024" by simp
  show "representable a" using representable_nearest [of a] n by simp
qed

lemma binary64_minus: "binary64 (- x) = fneg (binary64 x)"
proof (cases "x = 0")
  case True
  then show ?thesis by (simp add: binary64_zero)
next
  case False
  then show ?thesis by (auto simp add: binary64_def nearest_minus Let_def)
qed

lemma binary64_nonneg:
  assumes "0 \<le> x"
  shows "fle (Fin 0) (binary64 x)"
proof (cases "x = 0")
  case True
  then show ?thesis by (simp add: binary64_zero)
next
  case False
  with assms have "0 < x" by simp
  then show ?thesis
    using nearest_nonneg [OF assms] by (simp add: binary64_def Let_def)
qed

lemma fadd_nonneg:
  assumes "fle (Fin 0) u" and "fle (Fin 0) v"
  shows "fle (Fin 0) (fadd binary64 u v)"
  using assms by (cases u; cases v) (simp_all add: binary64_nonneg)

lemma foldl_fadd_nonneg:
  assumes "fle (Fin 0) acc" and "\<forall>x \<in> set xs. fle (Fin 0) x"
  shows "fle (Fin 0) (foldl (fadd binary64) acc xs)"
  using assms by (induction xs arbitrary: acc) (simp_all add: fadd_nonneg)

lemma fmul_half_nonneg:
  assumes "fle (Fin 0) q"
  shows "fle (Fin 0) (fmul binary64 (Fin (1 / 2)) q)"
  using assms by (cases q) (simp_all add: binary64_nonneg)

lemma fsub_nonneg_le:
  assumes "binary64 c = Fin c" and "fle (Fin 0) h"
  shows "fle (fsub binary64 (Fin c) h) (Fin c)"
proof (cases h)
  case (Fin y)
  with assms(2) have y: "0 \<le> y" by simp
  obtain m k where mk: "c = of_int m * 2 powr of_int k" "\<bar>m\<bar> < 2 ^ 53" "- 1074 \<le> k"
    using double_form(1) [OF assms(1)] unfolding representable_def by blast
  have c: "\<bar>c\<bar> < 2 ^ 1024" by (rule double_form(2) [OF assms(1)])
  have le: "nearest (c - y) \<le> c"
    using y mk by (intro nearest_le_representable [where m = m and k = k]) simp_all
  have "fle (binary64 (c - y)) (Fin c)"
  proof (cases "0 < c - y")
    case True
    then have "0 \<le> nearest (c - y)" by (intro nearest_nonneg) simp
    with le c have "\<not> 2 ^ 1024 \<le> \<bar>nearest (c - y)\<bar>" by simp
    then show ?thesis using le by (simp add: binary64_def)
  next
    case False
    then show ?thesis using le by (simp add: binary64_def Let_def)
  qed
  then show ?thesis by (simp add: Fin fsub_def)
qed (use assms in \<open>simp_all add: fsub_def\<close>)

lemma getLogFunc_binary64_le:
  assumes "length p = 4" and "\<forall>a \<in> set p. binary64 a = Fin a"
  shows "\<exists>r. getLogFunc binary64 notebook_binary64 (map Fin p) = Inr r \<and>
             fle r (MVN_COEF notebook_binary64)"
proof -
  obtain a0 a1 a2 a3 where p: "p = [a0, a1, a2, a3]"
    using assms(1) by (rule length_four)
  obtain c where c: "log_coef binary64 4 (Fin 1) = Fin c" "binary64 c = Fin c"
    using log_coef_binary64_Fin by blast
  have n: "binary64 (- a0) = Fin (- a0)" "binary64 (- a1) = Fin (- a1)"
      "binary64 (- a2) = Fin (- a2)" "binary64 (- a3) = Fin (- a3)"
    using assms(2) by (simp_all add: p binary64_minus)
  define q where "q = foldl (fadd binary64) (Fin 0)
      [binary64 (a0 * a0), binary64 (a1 * a1), binary64 (a2 * a2), binary64 (a3 * a3)]"
  have "fle (Fin 0) q"
    unfolding q_def by (intro foldl_fadd_nonneg) (simp_all add: binary64_nonneg)
  then have "fle (Fin 0) (fmul binary64 (Fin (1 / 2)) q)" by (rule fmul_half_nonneg)
  then have "fle (fsub binary64 (Fin c) (fmul binary64 (Fin (1 / 2)) q)) (Fin c)"
    using c(2) by (intro fsub_nonneg_le)
  moreover have "getLogFunc binary64 notebook_binary64 (map Fin p) =
      Inr (fsub binary64 (Fin c) (fmul binary64 (Fin (1 / 2)) q))"
    by (simp add: p getLogFunc_def notebook_binary64_def sub4 matmul4 dot4
        binary64_zero n c q_def fsub_def [of binary64 "Fin 0"])
  ultimately show ?thesis
    by (simp add: notebook_binary64_def c)
qed

lemma getLogFunc_binary64_at_mean:
  "getLogFunc binary64 notebook_binary64 (MEAN notebook_binary64) =
     Inr (MVN_COEF notebook_binary64)"
proof -
  obtain c where c: "log_coef binary64 4 (Fin 1) = Fin c" "binary64 c = Fin c"
    using log_coef_binary64_Fin by blast
  have z: "np_zeros 4 = [Fin 0, Fin 0, Fin 0, Fin 0]" by (simp add: np_zeros_def numeral_nat)
  have "getLogFunc binary64 notebook_binary64 [Fin 0, Fin 0, Fin 0, Fin 0] = Inr (Fin c)"
    by (simp add: getLogFunc_def notebook_binary64_def sub4 matmul4 dot4 fsub_def binary64_zero c)
  then show ?thesis by (simp add: notebook_binary64_def z c)
qed

subsection \<open>Rounding errors of the two paths\<close>

lemma unit_roundoff_bounds: "0 < unit_roundoff" "unit_roundoff \<le> 1 / 2 ^ 53"
  by (simp_all add: unit_roundoff_def powr_minus field_simps)

lemma representable_of_int: "\<bar>m\<bar> < 2 ^ 53 \<Longrightarrow> representable (of_int m)"
  unfolding representable_def by (rule exI [of _ m], rule exI [of _ 0]) simp

lemma representable_fraction:
  assumes "\<bar>m\<bar> < 2 ^ 53" and "k \<le> 1074"
  shows "representable (of_int m / 2 ^ k :: real)"
proof -
  have "(2::real) powr of_int (- int k) = 1 / 2 ^ k"
    by (simp add: powr_minus powr_realpow field_simps)
  then have "(of_int m / 2 ^ k :: real) = of_int m * 2 powr of_int (- int k)" by simp
  then show ?thesis
    unfolding representable_def using assms
    by (intro exI [of _ m] exI [of _ "- int k"]) simp
qed

lemma quantum_normal:
  assumes "2 powr (- 1022) \<le> \<bar>x\<bar>"
  shows "quantum x \<le> \<bar>x\<bar> * 2 powr (- 52)"
proof -
  have "0 < (2::real) powr (- 1022)" by simp
  then have pos: "0 < \<bar>x\<bar>" using assms by linarith
  have "log 2 (2 powr (- 1022)) \<le> log 2 \<bar>x\<bar>"
    using assms pos by (subst log_le_cancel_iff) simp_all
  then have "- 1022 \<le> log 2 \<bar>x\<bar>" by simp
  then have "- 1022 \<le> \<lfloor>log 2 \<bar>x\<bar>\<rfloor>" by (simp add: le_floor_iff)
  then have "max \<lfloor>log 2 \<bar>x\<bar>\<rfloor> (- 1022) = \<lfloor>log 2 \<bar>x\<bar>\<rfloor>" by (rule max_absorb1)
  then have "quantum x = 2 powr of_int (\<lfloor>log 2 \<bar>x\<bar>\<rfloor> - 52)"
    by (simp only: quantum_def)
  also have "\<dots> = 2 powr of_int \<lfloor>log 2 \<bar>x\<bar>\<rfloor> * 2 powr (- 52)"
    by (simp add: powr_diff powr_minus field_simps)
  also have "\<dots> \<le> \<bar>x\<bar> * 2 powr (- 52)"
    using two_powr_floor_log_le [OF pos] by (intro mult_right_mono) simp_all
  finally show ?thesis .
qed

lemma nearest_relative:
  assumes "2 powr (- 1022) \<le> \<bar>x\<bar>"
  shows "\<bar>nearest x - x\<bar> \<le> \<bar>x\<bar> * unit_roundoff"
proof -
  have "(2::real) powr (- 52) / 2 = 2 powr (- 53)"
    by (simp add: powr_minus)
  then have "\<bar>x\<bar> * 2 powr (- 52) / 2 = \<bar>x\<bar> * unit_roundoff"
    by (simp add: unit_roundoff_def)
  moreover have "\<bar>nearest x - x\<bar> \<le> quantum x / 2" by (rule nearest_error)
  moreover have "quantum x / 2 \<le> \<bar>x\<bar> * 2 powr (- 52) / 2"
    using quantum_normal [OF assms] by simp
  ultimately show ?thesis by linarith
qed

lemma binary64_range:
  assumes "lo \<le> x" and "x \<le> hi" and "representable lo" and "representable hi"
    and "\<bar>lo\<bar> < 2 ^ 1024" and "\<bar>hi\<bar> < 2 ^ 1024"
  shows "binary64 x = Fin (nearest x) \<and> lo \<le> nearest x \<and> nearest x \<le> hi"
proof -
  from assms(3) obtain m k where "lo = of_int m * 2 powr of_int k" "\<bar>m\<bar> < 2 ^ 53" "- 1074 \<le> k"
    unfolding representable_def by blast
  then have l: "lo \<le> nearest x" using assms(1) by (intro nearest_ge_representable)
  from assms(4) obtain m k where "hi = of_int m * 2 powr of_int k" "\<bar>m\<bar> < 2 ^ 53" "- 1074 \<le> k"
    unfolding representable_def by blast
  then have h: "nearest x \<le> hi" using assms(2) by (intro nearest_le_representable)
  have "\<bar>nearest x\<bar> < 2 ^ 1024" using l h assms(5,6) by linarith
  then show ?thesis using l h by (simp add: binary64_def)
qed

lemma binary64_accurate:
  assumes "lo \<le> x" and "x \<le> hi" and "representable lo" and "representable hi"
    and "\<bar>lo\<bar> < 2 ^ 1024" and "\<bar>hi\<bar> < 2 ^ 1024" and "2 powr (- 1022) \<le> \<bar>x\<bar>"
  shows "\<exists>y. binary64 x = Fin y \<and> lo \<le> y \<and> y \<le> hi \<and> \<bar>y - x\<bar> \<le> \<bar>x\<bar> * unit_roundoff"
  using binary64_range [OF assms(1-6)] nearest_relative [OF assms(7)] by blast

lemma ln_close:
  fixes x y e :: real
  assumes "0 < x" and "\<bar>y - x\<bar> \<le> x * e" and "e \<le> 1 / 2"
  shows "0 < y" and "\<bar>ln y - ln x\<bar> \<le> 2 * e"
proof -
  have "0 \<le> x * e" using assms(2) abs_ge_zero [of "y - x"] by (rule_tac order_trans)
  then have e0: "0 \<le> e" using assms(1) by (simp add: zero_le_mult_iff)
  have "x * e \<le> x * (1 / 2)" using assms(1,3) by (intro mult_left_mono) simp_all
  then have "x / 2 \<le> y" using assms(2) by linarith
  then show ypos: "0 < y" using assms(1) by linarith
  define z where "z = y / x"
  have zpos: "0 < z" using ypos assms(1) by (simp add: z_def)
  have "\<bar>y - x\<bar> / x \<le> e" using assms(1,2) by (simp add: field_simps)
  moreover have "\<bar>y - x\<bar> / x = \<bar>z - 1\<bar>"
    using assms(1) by (simp add: z_def field_simps abs_if)
  ultimately have z: "\<bar>z - 1\<bar> \<le> e" by simp
  have up: "ln z \<le> z - 1" using zpos by (rule ln_le_minus_one)
  have "ln (1 / z) \<le> 1 / z - 1" using zpos by (intro ln_le_minus_one) simp
  then have lo: "- ln z \<le> 1 / z - 1" using zpos by (simp add: ln_div)
  have zh: "1 / 2 \<le> z" using z assms(3) by linarith
  have "1 - z \<le> 2 * e * z"
  proof -
    have "1 - z \<le> e" using z by linarith
    also have "e = 2 * e * (1 / 2)" by simp
    also have "\<dots> \<le> 2 * e * z" using zh e0 by (intro mult_left_mono) simp_all
    finally show ?thesis .
  qed
  then have "1 / z - 1 \<le> 2 * e" using zpos by (simp add: field_simps)
  then have "\<bar>ln z\<bar> \<le> 2 * e" using up lo z e0 by linarith
  moreover have "ln z = ln y - ln x" using ypos assms(1) by (simp add: z_def ln_div)
  ultimately show "\<bar>ln y - ln x\<bar> \<le> 2 * e" by simp
qed

lemma ln_two_bounds: "1 / 2 \<le> ln (2::real)" "ln (2::real) \<le> 1"
proof -
  have "exp (1 / 2 :: real) \<le> 1 + 1 / 2 + (1 / 2)\<^sup>2" by (intro exp_bound) simp_all
  also have "\<dots> \<le> 2" by (simp add: power2_eq_square)
  finally have "ln (exp (1 / 2 :: real)) \<le> ln 2" by (subst ln_le_cancel_iff) simp_all
  then show "1 / 2 \<le> ln (2::real)" by simp
  show "ln (2::real) \<le> 1" using ln_le_minus_one [of "2::real"] by simp
qed

lemma representable_numeral:
  "(numeral w :: int) < 2 ^ 53 \<Longrightarrow> representable (numeral w)"
  "(numeral w :: int) < 2 ^ 53 \<Longrightarrow> representable (- numeral w)"
  using representable_of_int [of "numeral w"] representable_of_int [of "- numeral w"]
  by simp_all

lemma representable_simple:
  "representable 0" "representable (1 / 2)" "representable (1 / 4)" "representable (1 / 16)"
  "representable (1 / 64)" "representable (- (1 / 2))"
  using representable_of_int [of 0] representable_fraction [of 1 1]
    representable_fraction [of 1 2] representable_fraction [of 1 4]
    representable_fraction [of 1 6] representable_fraction [of "- 1" 1]
  by simp_all

lemma normal_pos:
  fixes x b :: real
  assumes "b \<le> x" and "1 / 2 ^ 1000 \<le> b"
  shows "2 powr (- 1022) \<le> \<bar>x\<bar>"
proof -
  have "(2::real) powr (- 1022) \<le> 2 powr (- 1000)" by (intro powr_mono) simp_all
  also have "\<dots> = 1 / 2 ^ 1000" by (simp add: powr_minus field_simps)
  finally show ?thesis using assms by linarith
qed

lemma normal_neg:
  fixes x b :: real
  assumes "x \<le> - b" and "1 / 2 ^ 1000 \<le> b"
  shows "2 powr (- 1022) \<le> \<bar>x\<bar>"
  using normal_pos [of b "- x"] assms by simp

lemma relative_bound:
  fixes x y :: real
  assumes "\<bar>y - x\<bar> \<le> \<bar>x\<bar> * unit_roundoff" and "\<bar>x\<bar> \<le> B"
  shows "\<bar>y - x\<bar> \<le> B * unit_roundoff"
proof -
  have "\<bar>x\<bar> * unit_roundoff \<le> B * unit_roundoff"
    using assms(2) unit_roundoff_bounds(1) by (intro mult_right_mono) simp_all
  with assms(1) show ?thesis by linarith
qed

lemma unit_roundoff_half: "unit_roundoff \<le> 1 / 2"
proof -
  have "(1::real) / 2 ^ 53 \<le> 1 / 2" by simp
  with unit_roundoff_bounds(2) show ?thesis by linarith
qed

lemma two_pi_range:
  "\<exists>t. fmul binary64 (Fin 2) (binary64 pi) = Fin t \<and> 4 \<le> t \<and> t \<le> 8"
proof -
  have "2 \<le> pi" "pi \<le> 4" using pi_ge_two pi_less_4 by simp_all
  then have p: "binary64 pi = Fin (nearest pi)" "2 \<le> nearest pi" "nearest pi \<le> 4"
    using binary64_range [of 2 pi 4] by (simp_all add: representable_numeral)
  then have "4 \<le> 2 * nearest pi" "2 * nearest pi \<le> 8" by simp_all
  then have "binary64 (2 * nearest pi) = Fin (nearest (2 * nearest pi)) \<and>
      4 \<le> nearest (2 * nearest pi) \<and> nearest (2 * nearest pi) \<le> 8"
    by (intro binary64_range) (simp_all add: representable_numeral)
  then show ?thesis using p(1) by simp
qed

lemma log_coef_accurate:
  assumes t: "fmul binary64 (Fin 2) (binary64 pi) = Fin t" "4 \<le> t" "t \<le> 8"
  shows "\<exists>c. log_coef binary64 4 (Fin 1) = Fin c \<and> binary64 c = Fin c \<and>
             - 8 \<le> c \<and> c \<le> - 2 \<and> \<bar>c + 2 * ln t\<bar> \<le> 32 * unit_roundoff"
proof -
  note u = unit_roundoff_bounds(1) unit_roundoff_half
  have "sqrt 4 \<le> sqrt t" using t by (intro real_sqrt_le_mono)
  then have s2: "2 \<le> sqrt t" by simp
  have "sqrt t \<le> sqrt (3\<^sup>2)" using t by (intro real_sqrt_le_mono) simp
  then have s3: "sqrt t \<le> 3" by simp
  have "2 powr (- 1022) \<le> \<bar>sqrt t\<bar>" by (rule normal_pos [OF s2]) simp
  with s2 s3 obtain s where s: "binary64 (sqrt t) = Fin s" "2 \<le> s" "s \<le> 3"
      "\<bar>s - sqrt t\<bar> \<le> \<bar>sqrt t\<bar> * unit_roundoff"
    using binary64_accurate [of 2 "sqrt t" 3] by (auto simp add: representable_numeral)
  have spos: "0 < sqrt t" using s2 by linarith
  have "\<bar>s - sqrt t\<bar> \<le> sqrt t * unit_roundoff" using s(4) spos by simp
  then have "\<bar>ln s - ln (sqrt t)\<bar> \<le> 2 * unit_roundoff"
    using spos u by (intro ln_close(2))
  moreover have "ln (sqrt t) = ln t / 2" using t by (intro ln_sqrt) simp
  ultimately have ls: "\<bar>ln s - ln t / 2\<bar> \<le> 2 * unit_roundoff" by simp
  have i1: "1 / 4 \<le> 1 / s" "1 / s \<le> 1 / 2" using s(2,3) by (simp_all add: field_simps)
  have "2 powr (- 1022) \<le> \<bar>1 / s\<bar>" by (rule normal_pos [OF i1(1)]) simp
  with i1 obtain r where r: "binary64 (1 / s) = Fin r" "1 / 4 \<le> r" "r \<le> 1 / 2"
      "\<bar>r - 1 / s\<bar> \<le> \<bar>1 / s\<bar> * unit_roundoff"
    using binary64_accurate [of "1 / 4" "1 / s" "1 / 2"] by (auto simp add: representable_simple)
  have ipos: "0 < 1 / s" using s(2) by simp
  have rpos: "0 < r" using r(2) by simp
  have "\<bar>r - 1 / s\<bar> \<le> 1 / s * unit_roundoff" using r(4) ipos by simp
  then have "\<bar>ln r - ln (1 / s)\<bar> \<le> 2 * unit_roundoff"
    using ipos u by (intro ln_close(2))
  moreover have "ln (1 / s) = - ln s" using s(2) by (simp add: ln_div)
  ultimately have lr: "\<bar>ln r + ln s\<bar> \<le> 2 * unit_roundoff" by simp
  have "ln (1 / 4) \<le> ln r" using r(2) rpos by (subst ln_le_cancel_iff) simp_all
  moreover have "ln (1 / 4 :: real) = - (2 * ln 2)"
  proof -
    have "ln (1 / 4 :: real) = - ln (2 ^ 2)" by (simp add: ln_div)
    also have "\<dots> = - (2 * ln 2)" by (simp only: ln_realpow of_nat_numeral)
    finally show ?thesis .
  qed
  ultimately have l1: "- 2 \<le> ln r" using ln_two_bounds by linarith
  have "ln r \<le> ln (1 / 2)" using r(3) rpos by (subst ln_le_cancel_iff) simp_all
  moreover have "ln (1 / 2 :: real) = - ln 2" by (simp add: ln_div)
  ultimately have l2: "ln r \<le> - (1 / 2)" using ln_two_bounds by linarith
  have "2 powr (- 1022) \<le> \<bar>ln r\<bar>" by (rule normal_neg [OF l2]) simp
  with l1 l2 obtain l where l: "binary64 (ln r) = Fin l" "- 2 \<le> l" "l \<le> - (1 / 2)"
      "\<bar>l - ln r\<bar> \<le> \<bar>ln r\<bar> * unit_roundoff"
    using binary64_accurate [of "- 2" "ln r" "- (1 / 2)"]
    by (auto simp add: representable_numeral representable_simple)
  have "\<bar>ln r\<bar> \<le> 2" using l1 l2 by simp
  with l(4) have le: "\<bar>l - ln r\<bar> \<le> 2 * unit_roundoff" by (rule relative_bound)
  have m1: "- 8 \<le> 4 * l" "4 * l \<le> - 2" using l(2,3) by simp_all
  have "2 powr (- 1022) \<le> \<bar>4 * l\<bar>" by (rule normal_neg [OF m1(2)]) simp
  with m1 obtain c where c: "binary64 (4 * l) = Fin c" "- 8 \<le> c" "c \<le> - 2"
      "\<bar>c - 4 * l\<bar> \<le> \<bar>4 * l\<bar> * unit_roundoff"
    using binary64_accurate [of "- 8" "4 * l" "- 2"] by (auto simp add: representable_numeral)
  have "\<bar>4 * l\<bar> \<le> 8" using m1 by simp
  with c(4) have ce: "\<bar>c - 4 * l\<bar> \<le> 8 * unit_roundoff" by (rule relative_bound)
  have idem: "binary64 c = Fin c" using c(1) by (rule binary64_idem)
  have a: "np_log binary64 (fdiv binary64 (Fin 1) (np_sqrt binary64 (Fin t))) = Fin l"
    using t s r rpos l by simp
  have b: "np_log binary64 (np_sqrt binary64 (Fin 1)) = Fin 0"
    by (simp add: binary64_one binary64_zero)
  have "log_coef binary64 4 (Fin 1) = Fin c"
    unfolding log_coef_def t a b by (simp add: c(1) idem)
  moreover have "\<bar>c + 2 * ln t\<bar> \<le> 32 * unit_roundoff"
    using ce le lr ls by linarith
  ultimately show ?thesis using c(2,3) idem by blast
qed

lemma normalization_accurate:
  assumes t: "4 \<le> t" "t \<le> 8"
  shows "\<exists>k. fmul binary64 (np_power binary64 (Fin t) (- 2))
            (np_power binary64 (Fin 1) (- 1 / 2)) = Fin k \<and>
          1 / 64 \<le> k \<and> k \<le> 1 / 16 \<and> \<bar>ln k + 2 * ln t\<bar> \<le> 2 * unit_roundoff"
proof -
  note u = unit_roundoff_bounds(1) unit_roundoff_half
  have tp: "t powr (- 2) = 1 / t\<^sup>2" using t by (simp add: powr_minus field_simps)
  have "4\<^sup>2 \<le> t\<^sup>2" "t\<^sup>2 \<le> 8\<^sup>2" using t by (intro power_mono; simp)+
  then have b: "1 / 64 \<le> t powr (- 2)" "t powr (- 2) \<le> 1 / 16"
    unfolding tp using t by (simp_all add: field_simps)
  have "2 powr (- 1022) \<le> \<bar>t powr (- 2)\<bar>" by (rule normal_pos [OF b(1)]) simp
  with b obtain k where k: "binary64 (t powr (- 2)) = Fin k" "1 / 64 \<le> k" "k \<le> 1 / 16"
      "\<bar>k - t powr (- 2)\<bar> \<le> \<bar>t powr (- 2)\<bar> * unit_roundoff"
    using binary64_accurate [of "1 / 64" "t powr (- 2)" "1 / 16"]
    by (auto simp add: representable_simple)
  have pos: "0 < t powr (- 2)" using t by simp
  have "\<bar>k - t powr (- 2)\<bar> \<le> t powr (- 2) * unit_roundoff" using k(4) by simp
  then have "\<bar>ln k - ln (t powr (- 2))\<bar> \<le> 2 * unit_roundoff"
    using pos u by (intro ln_close(2))
  moreover have "ln (t powr (- 2)) = - 2 * ln t" by (rule ln_powr)
  ultimately have e: "\<bar>ln k + 2 * ln t\<bar> \<le> 2 * unit_roundoff" by simp
  have "binary64 k = Fin k" using k(1) by (rule binary64_idem)
  then have "fmul binary64 (np_power binary64 (Fin t) (- 2))
            (np_power binary64 (Fin 1) (- 1 / 2)) = Fin k"
    using t k(1) by (simp add: binary64_one)
  then show ?thesis using k(2,3) e by blast
qed

lemma fadd_range:
  assumes "0 \<le> x" and "x \<le> of_int m" and "0 \<le> y" and "y \<le> 64" and "\<bar>m + 64\<bar> < 2 ^ 53"
  shows "\<exists>z. fadd binary64 (Fin x) (Fin y) = Fin z \<and> 0 \<le> z \<and> z \<le> of_int (m + 64)"
proof -
  have "0 \<le> x + y" "x + y \<le> of_int (m + 64)" using assms by simp_all
  moreover have "\<bar>(of_int (m + 64) :: real)\<bar> < 2 ^ 1024"
  proof -
    have "\<bar>(of_int (m + 64) :: real)\<bar> < of_int (2 ^ 53)"
      using assms(5) by (simp only: of_int_abs [symmetric] of_int_less_iff)
    also have "\<dots> \<le> 2 ^ 1024" by simp
    finally show ?thesis .
  qed
  ultimately have "binary64 (x + y) = Fin (nearest (x + y)) \<and> 0 \<le> nearest (x + y) \<and>
      nearest (x + y) \<le> of_int (m + 64)"
    using assms(5) by (intro binary64_range representable_of_int representable_simple) simp_all
  then show ?thesis by simp
qed

lemma square_range:
  fixes a :: real
  assumes "\<bar>a\<bar> \<le> 8"
  shows "\<exists>y. binary64 (a * a) = Fin y \<and> 0 \<le> y \<and> y \<le> 64"
proof -
  have "\<bar>a\<bar> * \<bar>a\<bar> \<le> 8 * 8" using assms by (intro mult_mono) simp_all
  then have "a * a \<le> 64" by (simp add: abs_mult_self_eq)
  moreover have "0 \<le> a * a" by simp
  ultimately have "binary64 (a * a) = Fin (nearest (a * a)) \<and> 0 \<le> nearest (a * a) \<and>
      nearest (a * a) \<le> 64"
    by (intro binary64_range) (simp_all add: representable_numeral representable_simple)
  then show ?thesis by simp
qed

lemma quadratic_range:
  fixes a0 a1 a2 a3 :: real
  assumes "\<bar>a0\<bar> \<le> 8" and "\<bar>a1\<bar> \<le> 8" and "\<bar>a2\<bar> \<le> 8" and "\<bar>a3\<bar> \<le> 8"
  shows "\<exists>h. fmul binary64 (Fin (1 / 2)) (foldl (fadd binary64) (Fin 0)
            [binary64 (a0 * a0), binary64 (a1 * a1), binary64 (a2 * a2), binary64 (a3 * a3)]) =
            Fin h \<and>
          fmul binary64 (Fin (- 1 / 2)) (foldl (fadd binary64) (Fin 0)
            [binary64 (a0 * a0), binary64 (a1 * a1), binary64 (a2 * a2), binary64 (a3 * a3)]) =
            Fin (- h) \<and> 0 \<le> h \<and> h \<le> 128"
proof -
  obtain y0 where y0: "binary64 (a0 * a0) = Fin y0" "0 \<le> y0" "y0 \<le> 64"
    using square_range [OF assms(1)] by blast
  obtain y1 where y1: "binary64 (a1 * a1) = Fin y1" "0 \<le> y1" "y1 \<le> 64"
    using square_range [OF assms(2)] by blast
  obtain y2 where y2: "binary64 (a2 * a2) = Fin y2" "0 \<le> y2" "y2 \<le> 64"
    using square_range [OF assms(3)] by blast
  obtain y3 where y3: "binary64 (a3 * a3) = Fin y3" "0 \<le> y3" "y3 \<le> 64"
    using square_range [OF assms(4)] by blast
  obtain z0 where z0: "fadd binary64 (Fin 0) (Fin y0) = Fin z0" "0 \<le> z0" "z0 \<le> 64"
    using fadd_range [of 0 0 y0] y0 by auto
  obtain z1 where z1: "fadd binary64 (Fin z0) (Fin y1) = Fin z1" "0 \<le> z1" "z1 \<le> 128"
    using fadd_range [of z0 64 y1] z0 y1 by auto
  obtain z2 where z2: "fadd binary64 (Fin z1) (Fin y2) = Fin z2" "0 \<le> z2" "z2 \<le> 192"
    using fadd_range [of z1 128 y2] z1 y2 by auto
  obtain z3 where z3: "fadd binary64 (Fin z2) (Fin y3) = Fin z3" "0 \<le> z3" "z3 \<le> 256"
    using fadd_range [of z2 192 y3] z2 y3 by auto
  have q: "foldl (fadd binary64) (Fin 0)
            [binary64 (a0 * a0), binary64 (a1 * a1), binary64 (a2 * a2), binary64 (a3 * a3)] =
           Fin z3"
    by (simp only: foldl.simps y0 y1 y2 y3 z0 z1 z2 z3)
  have "0 \<le> 1 / 2 * z3" "1 / 2 * z3 \<le> 128" using z3 by simp_all
  then have h: "binary64 (1 / 2 * z3) = Fin (nearest (1 / 2 * z3)) \<and>
      0 \<le> nearest (1 / 2 * z3) \<and> nearest (1 / 2 * z3) \<le> 128"
    by (intro binary64_range) (simp_all add: representable_numeral representable_simple)
  have "binary64 (- 1 / 2 * z3) = binary64 (- (1 / 2 * z3))" by simp
  also have "\<dots> = Fin (- nearest (1 / 2 * z3))"
    using h by (simp only: binary64_minus fneg.simps)
  finally have "fmul binary64 (Fin (- 1 / 2)) (Fin z3) = Fin (- nearest (1 / 2 * z3))"
    by (simp only: fmul.simps)
  moreover have "fmul binary64 (Fin (1 / 2)) (Fin z3) = Fin (nearest (1 / 2 * z3))"
    using h by (simp only: fmul.simps)
  ultimately show ?thesis unfolding q using h by blast
qed

lemma getLogFunc_binary64_value:
  assumes "binary64 a0 = Fin a0" and "binary64 a1 = Fin a1" and "binary64 a2 = Fin a2"
    and "binary64 a3 = Fin a3"
  shows "getLogFunc binary64 notebook_binary64 [Fin a0, Fin a1, Fin a2, Fin a3] =
         Inr (fsub binary64 (log_coef binary64 4 (Fin 1))
                (fmul binary64 (Fin (1 / 2)) (foldl (fadd binary64) (Fin 0)
                   [binary64 (a0 * a0), binary64 (a1 * a1), binary64 (a2 * a2),
                    binary64 (a3 * a3)])))"
proof -
  have n: "binary64 (- a0) = Fin (- a0)" "binary64 (- a1) = Fin (- a1)"
      "binary64 (- a2) = Fin (- a2)" "binary64 (- a3) = Fin (- a3)"
    using assms by (simp_all add: binary64_minus)
  show ?thesis
    by (simp add: getLogFunc_def notebook_binary64_def sub4 matmul4 dot4
        binary64_zero n fsub_def [of binary64 "Fin 0"])
qed

lemma getLogFunc_bad_binary64_value:
  assumes "binary64 a0 = Fin a0" and "binary64 a1 = Fin a1" and "binary64 a2 = Fin a2"
    and "binary64 a3 = Fin a3"
  shows "getLogFunc_bad binary64 notebook_mvn [Fin a0, Fin a1, Fin a2, Fin a3] =
         Inr (np_log binary64
                (fmul binary64
                   (fmul binary64 (np_power binary64 (fmul binary64 (Fin 2) (binary64 pi)) (- 2))
                      (np_power binary64 (Fin 1) (- 1 / 2)))
                   (np_exp binary64 (fmul binary64 (Fin (- 1 / 2)) (foldl (fadd binary64) (Fin 0)
                      [binary64 (a0 * a0), binary64 (a1 * a1), binary64 (a2 * a2),
                       binary64 (a3 * a3)])))))"
proof -
  have q: "(case np_subtract binary64 [Fin a0, Fin a1, Fin a2, Fin a3] (np_zeros 4) of
             Inl e \<Rightarrow> Inl e
           | Inr dev \<Rightarrow> (case np_matmul binary64 (map (map Fin) (eye 4)) dev of
               Inl e \<Rightarrow> Inl e
             | Inr w \<Rightarrow> (case np_dot binary64 dev w of Inl e \<Rightarrow> Inl e | Inr q \<Rightarrow> Inr (F q)))) =
           (Inr (F (foldl (fadd binary64) (Fin 0)
                      [binary64 (a0 * a0), binary64 (a1 * a1), binary64 (a2 * a2),
                       binary64 (a3 * a3)])) :: error + npfloat)" for F
    by (simp add: sub4_rev matmul4 dot4 fsub_def binary64_zero assms)
  have "mvn_pdf binary64 notebook_mvn [Fin a0, Fin a1, Fin a2, Fin a3] =
        Inr (fmul binary64
               (fmul binary64 (np_power binary64 (fmul binary64 (Fin 2) (binary64 pi)) (- 2))
                  (np_power binary64 (Fin 1) (- 1 / 2)))
               (np_exp binary64 (fmul binary64 (Fin (- 1 / 2)) (foldl (fadd binary64) (Fin 0)
                  [binary64 (a0 * a0), binary64 (a1 * a1), binary64 (a2 * a2),
                   binary64 (a3 * a3)]))))"
    unfolding mvn_pdf_def notebook_mvn_def mvn_frozen.simps np_linalg_inv_binary64_eye
      np_linalg_det_binary64_eye sum.case q
    by (simp add: np_zeros_def)
  then show ?thesis by (simp only: getLogFunc_bad_def sum.case)
qed

lemma ln_two_pi_bounds:
  fixes t :: real
  assumes "4 \<le> t" and "t \<le> 8"
  shows "1 \<le> ln t" and "ln t \<le> 3"
proof -
  have "ln (2 ^ 2) \<le> ln t" using assms by (subst ln_le_cancel_iff) simp_all
  moreover have "ln ((2::real) ^ 2) = 2 * ln 2" by (simp only: ln_realpow of_nat_numeral)
  ultimately show "1 \<le> ln t" using ln_two_bounds by linarith
  have "ln t \<le> ln (2 ^ 3)" using assms by (subst ln_le_cancel_iff) simp_all
  moreover have "ln ((2::real) ^ 3) = 3 * ln 2" by (simp only: ln_realpow of_nat_numeral)
  ultimately show "ln t \<le> 3" using ln_two_bounds by linarith
qed

lemma exp_lower:
  fixes h :: real
  assumes "h \<le> 128"
  shows "1 / 2 ^ 256 \<le> exp (- h)"
proof -
  have "(1::real) / 2 ^ 256 = 2 powr (- 256)" by (simp add: powr_minus field_simps)
  also have "\<dots> = exp (- 256 * ln 2)" by (simp add: powr_def)
  also have "\<dots> \<le> exp (- h)"
  proof -
    have "- 256 * ln 2 \<le> - h" using assms ln_two_bounds(1) by linarith
    then show ?thesis by (simp only: exp_le_cancel_iff)
  qed
  finally show ?thesis .
qed

lemma naive_stable_close:
  assumes d: "binary64 a0 = Fin a0" "binary64 a1 = Fin a1" "binary64 a2 = Fin a2"
      "binary64 a3 = Fin a3"
    and r: "\<bar>a0\<bar> \<le> 8" "\<bar>a1\<bar> \<le> 8" "\<bar>a2\<bar> \<le> 8" "\<bar>a3\<bar> \<le> 8"
  shows "\<exists>b g. getLogFunc_bad binary64 notebook_mvn [Fin a0, Fin a1, Fin a2, Fin a3] =
             Inr (Fin b) \<and>
           getLogFunc binary64 notebook_binary64 [Fin a0, Fin a1, Fin a2, Fin a3] =
             Inr (Fin g) \<and>
           g \<le> - 2 \<and> \<bar>b - g\<bar> \<le> 309 * unit_roundoff"
proof -
  note u = unit_roundoff_bounds(1) unit_roundoff_half
  obtain t where t: "fmul binary64 (Fin 2) (binary64 pi) = Fin t" "4 \<le> t" "t \<le> 8"
    using two_pi_range by blast
  obtain c where c: "log_coef binary64 4 (Fin 1) = Fin c" "binary64 c = Fin c"
      "- 8 \<le> c" "c \<le> - 2" "\<bar>c + 2 * ln t\<bar> \<le> 32 * unit_roundoff"
    using log_coef_accurate [OF t] by blast
  obtain k where k: "fmul binary64 (np_power binary64 (Fin t) (- 2))
        (np_power binary64 (Fin 1) (- 1 / 2)) = Fin k"
      "1 / 64 \<le> k" "k \<le> 1 / 16" "\<bar>ln k + 2 * ln t\<bar> \<le> 2 * unit_roundoff"
    using normalization_accurate [OF t(2,3)] by blast
  define q where "q = foldl (fadd binary64) (Fin 0)
      [binary64 (a0 * a0), binary64 (a1 * a1), binary64 (a2 * a2), binary64 (a3 * a3)]"
  obtain h where h: "fmul binary64 (Fin (1 / 2)) q = Fin h"
      "fmul binary64 (Fin (- 1 / 2)) q = Fin (- h)" "0 \<le> h" "h \<le> 128"
    unfolding q_def using quadratic_range [OF r] by blast
  have lt: "1 \<le> ln t" "ln t \<le> 3" using ln_two_pi_bounds [OF t(2,3)] by simp_all
  \<comment> \<open>the exponential\<close>
  have e1: "1 / 2 ^ 256 \<le> exp (- h)" using h(4) by (rule exp_lower)
  have e2: "exp (- h) \<le> 1" using h(3) by simp
  have "2 powr (- 1022) \<le> \<bar>exp (- h)\<bar>" by (rule normal_pos [OF e1]) simp
  with e1 e2 obtain E where E: "binary64 (exp (- h)) = Fin E" "1 / 2 ^ 256 \<le> E" "E \<le> 1"
      "\<bar>E - exp (- h)\<bar> \<le> \<bar>exp (- h)\<bar> * unit_roundoff"
    using binary64_accurate [of "1 / 2 ^ 256" "exp (- h)" 1] representable_fraction [of 1 256]
      representable_of_int [of 1]
    by auto
  have "\<bar>E - exp (- h)\<bar> \<le> exp (- h) * unit_roundoff" using E(4) by simp
  then have "\<bar>ln E - ln (exp (- h))\<bar> \<le> 2 * unit_roundoff"
    using u by (intro ln_close(2)) simp_all
  then have lE: "\<bar>ln E + h\<bar> \<le> 2 * unit_roundoff" by simp
  have Epos: "0 < E" using E(2) by (rule less_le_trans [rotated]) simp
  \<comment> \<open>the density\<close>
  have kpos: "0 < k" using k(2) by simp
  have "1 / 64 * (1 / 2 ^ 256) \<le> k * E"
    using k(2) E(2) by (intro mult_mono) simp_all
  then have p1: "1 / 2 ^ 262 \<le> k * E" by simp
  have "k * E \<le> 1 / 16 * 1" using k(3) E(3) kpos Epos by (intro mult_mono) simp_all
  then have p2: "k * E \<le> 1 / 16" by simp
  have "2 powr (- 1022) \<le> \<bar>k * E\<bar>" by (rule normal_pos [OF p1]) simp
  with p1 p2 obtain P where P: "binary64 (k * E) = Fin P" "1 / 2 ^ 262 \<le> P" "P \<le> 1 / 16"
      "\<bar>P - k * E\<bar> \<le> \<bar>k * E\<bar> * unit_roundoff"
    using binary64_accurate [of "1 / 2 ^ 262" "k * E" "1 / 16"] representable_fraction [of 1 262]
      representable_simple(4)
    by auto
  have kEpos: "0 < k * E" using kpos Epos by simp
  have Ppos: "0 < P" using P(2) by (rule less_le_trans [rotated]) simp
  have "\<bar>P - k * E\<bar> \<le> k * E * unit_roundoff" using P(4) kEpos by simp
  then have "\<bar>ln P - ln (k * E)\<bar> \<le> 2 * unit_roundoff"
    using kEpos u by (intro ln_close(2))
  moreover have "ln (k * E) = ln k + ln E" using kpos Epos by (rule ln_mult_pos)
  ultimately have lP: "\<bar>ln P - (- 2 * ln t - h)\<bar> \<le> 6 * unit_roundoff"
    using k(4) lE by linarith
  \<comment> \<open>its logarithm\<close>
  have u1: "6 * unit_roundoff \<le> 1" using unit_roundoff_bounds(2) by simp
  have b1: "- 135 \<le> ln P" "ln P \<le> - 1" using lP lt h(3,4) u1 by linarith+
  have "2 powr (- 1022) \<le> \<bar>ln P\<bar>" by (rule normal_neg [OF b1(2)]) simp
  with b1 obtain b where b: "binary64 (ln P) = Fin b" "- 135 \<le> b" "b \<le> - 1"
      "\<bar>b - ln P\<bar> \<le> \<bar>ln P\<bar> * unit_roundoff"
    using binary64_accurate [of "- 135" "ln P" "- 1"] representable_of_int [of "- 1"]
    by (auto simp add: representable_numeral)
  have "\<bar>ln P\<bar> \<le> 135" using b1 by simp
  with b(4) have bE: "\<bar>b - ln P\<bar> \<le> 135 * unit_roundoff" by (rule relative_bound)
  have bad: "getLogFunc_bad binary64 notebook_mvn [Fin a0, Fin a1, Fin a2, Fin a3] =
      Inr (Fin b)"
    unfolding getLogFunc_bad_binary64_value [OF d] t k q_def [symmetric] h
    using E(1) P(1) Ppos b(1) by simp
  \<comment> \<open>the stable path\<close>
  have g1: "- 136 \<le> c + - h" "c + - h \<le> - 2" using c(3,4) h(3,4) by simp_all
  have "2 powr (- 1022) \<le> \<bar>c + - h\<bar>" by (rule normal_neg [OF g1(2)]) simp
  with g1 obtain g where g: "binary64 (c + - h) = Fin g" "- 136 \<le> g" "g \<le> - 2"
      "\<bar>g - (c + - h)\<bar> \<le> \<bar>c + - h\<bar> * unit_roundoff"
    using binary64_accurate [of "- 136" "c + - h" "- 2"]
    by (auto simp add: representable_numeral)
  have "\<bar>c + - h\<bar> \<le> 136" using g1 by simp
  with g(4) have gE: "\<bar>g - (c + - h)\<bar> \<le> 136 * unit_roundoff" by (rule relative_bound)
  have good: "getLogFunc binary64 notebook_binary64 [Fin a0, Fin a1, Fin a2, Fin a3] =
      Inr (Fin g)"
    unfolding getLogFunc_binary64_value [OF d] c(1) q_def [symmetric] h
    using g(1) by (simp add: fsub_def)
  have "\<bar>b - g\<bar> \<le> 309 * unit_roundoff" using bE lP c(5) gE by linarith
  with bad good g(3) show ?thesis by blast
qed

lemma two_pi_accurate:
  "\<exists>t. fmul binary64 (Fin 2) (binary64 pi) = Fin t \<and> 4 \<le> t \<and> t \<le> 8 \<and>
       \<bar>ln t - ln (2 * pi)\<bar> \<le> 4 * unit_roundoff"
proof -
  note u = unit_roundoff_bounds(1) unit_roundoff_half
  have b: "2 \<le> pi" "pi \<le> 4" using pi_ge_two pi_less_4 by simp_all
  have "2 powr (- 1022) \<le> \<bar>pi\<bar>" by (rule normal_pos [OF b(1)]) simp
  with b obtain p where p: "binary64 pi = Fin p" "2 \<le> p" "p \<le> 4"
      "\<bar>p - pi\<bar> \<le> \<bar>pi\<bar> * unit_roundoff"
    using binary64_accurate [of 2 pi 4] by (auto simp add: representable_numeral)
  have "\<bar>p - pi\<bar> \<le> pi * unit_roundoff" using p(4) by simp
  then have lp: "\<bar>ln p - ln pi\<bar> \<le> 2 * unit_roundoff"
    using u by (intro ln_close(2)) simp_all
  have b2: "4 \<le> 2 * p" "2 * p \<le> 8" using p(2,3) by simp_all
  have "2 powr (- 1022) \<le> \<bar>2 * p\<bar>" by (rule normal_pos [OF b2(1)]) simp
  with b2 obtain t where t: "binary64 (2 * p) = Fin t" "4 \<le> t" "t \<le> 8"
      "\<bar>t - 2 * p\<bar> \<le> \<bar>2 * p\<bar> * unit_roundoff"
    using binary64_accurate [of 4 "2 * p" 8] by (auto simp add: representable_numeral)
  have pos: "0 < 2 * p" using p(2) by simp
  have "\<bar>t - 2 * p\<bar> \<le> 2 * p * unit_roundoff" using t(4) pos by simp
  then have "\<bar>ln t - ln (2 * p)\<bar> \<le> 2 * unit_roundoff"
    using pos u by (intro ln_close(2))
  moreover have "ln (2 * p) = ln 2 + ln p" using p(2) by (intro ln_mult_pos) simp_all
  moreover have "ln (2 * pi) = ln 2 + ln pi" by (intro ln_mult_pos) simp_all
  ultimately have "\<bar>ln t - ln (2 * pi)\<bar> \<le> 4 * unit_roundoff" using lp by linarith
  then show ?thesis using p(1) t(1-3) by simp
qed

lemma MVN_COEF_binary64_accurate:
  "\<exists>c. log_coef binary64 4 (Fin 1) = Fin c \<and> binary64 c = Fin c \<and>
       \<bar>c - (- 2 * ln (2 * pi))\<bar> \<le> 40 * unit_roundoff"
proof -
  obtain t where t: "fmul binary64 (Fin 2) (binary64 pi) = Fin t" "4 \<le> t" "t \<le> 8"
      "\<bar>ln t - ln (2 * pi)\<bar> \<le> 4 * unit_roundoff"
    using two_pi_accurate by blast
  obtain c where c: "log_coef binary64 4 (Fin 1) = Fin c" "binary64 c = Fin c"
      "\<bar>c + 2 * ln t\<bar> \<le> 32 * unit_roundoff"
    using log_coef_accurate [OF t(1-3)] by blast
  have "\<bar>c - (- 2 * ln (2 * pi))\<bar> \<le> 40 * unit_roundoff" using c(3) t(4) by linarith
  with c(1,2) show ?thesis by blast
qed

lemma unit_roundoff_small: "1000000000 * unit_roundoff \<le> 1 / 1000000"
  using unit_roundoff_bounds(2) by simp

lemma getLogFunc_binary64_far:
  "\<exists>r. getLogFunc binary64 notebook_binary64 [Fin 10000, Fin 10000, Fin 10000, Fin 10000] =
         Inr (Fin r) \<and>
       \<bar>r - (- 2 * ln (2 * pi) - 200000000)\<bar> \<le> 1 / 1000000"
proof -
  obtain c where c: "log_coef binary64 4 (Fin 1) = Fin c" "binary64 c = Fin c"
      "\<bar>c - (- 2 * ln (2 * pi))\<bar> \<le> 40 * unit_roundoff"
    using MVN_COEF_binary64_accurate by blast
  have lp: "1 \<le> ln (2 * pi)" "ln (2 * pi) \<le> 3"
    using ln_two_pi_bounds [of "2 * pi"] pi_ge_two pi_less_4 by simp_all
  have u1: "40 * unit_roundoff \<le> 1" using unit_roundoff_bounds(2) by simp
  have cb: "- 7 \<le> c" "c \<le> - 1" using c(3) lp u1 by linarith+
  have g1: "- 200000007 \<le> c + - 200000000" "c + - 200000000 \<le> - 200000001"
    using cb by simp_all
  have "2 powr (- 1022) \<le> \<bar>c + - 200000000\<bar>" by (rule normal_neg [OF g1(2)]) simp
  with g1 obtain r where r: "binary64 (c + - 200000000) = Fin r"
      "\<bar>r - (c + - 200000000)\<bar> \<le> \<bar>c + - 200000000\<bar> * unit_roundoff"
    using binary64_accurate [of "- 200000007" "c + - 200000000" "- 200000001"]
    by (auto simp add: representable_numeral)
  have "\<bar>c + - 200000000\<bar> \<le> 200000007" using g1 by simp
  with r(2) have "\<bar>r - (c + - 200000000)\<bar> \<le> 200000007 * unit_roundoff"
    by (rule relative_bound)
  then have "\<bar>r - (- 2 * ln (2 * pi) - 200000000)\<bar> \<le> 1000000000 * unit_roundoff"
    using c(3) unit_roundoff_bounds(1) by linarith
  then have e: "\<bar>r - (- 2 * ln (2 * pi) - 200000000)\<bar> \<le> 1 / 1000000"
    using unit_roundoff_small by linarith
  have d: "binary64 10000 = Fin 10000" by (simp add: binary64_numeral)
  have "getLogFunc binary64 notebook_binary64 [Fin 10000, Fin 10000, Fin 10000, Fin 10000] =
      Inr (Fin r)"
    unfolding getLogFunc_binary64_value [OF d d d d] c(1)
    using r(1) by (simp add: fsub_def binary64_numeral binary64_zero)
  with e show ?thesis by blast
qed

lemma getLogFunc_binary64_at_mean_accurate:
  "\<exists>v. getLogFunc binary64 notebook_binary64 (np_zeros 4) = Inr (Fin v) \<and>
       \<bar>v - (- 2 * ln (2 * pi))\<bar> \<le> 40 * unit_roundoff"
proof -
  obtain c where c: "log_coef binary64 4 (Fin 1) = Fin c" "binary64 c = Fin c"
      "\<bar>c - (- 2 * ln (2 * pi))\<bar> \<le> 40 * unit_roundoff"
    using MVN_COEF_binary64_accurate by blast
  have "getLogFunc binary64 notebook_binary64 (np_zeros 4) = Inr (Fin c)"
    using getLogFunc_binary64_at_mean c(1) by (simp add: notebook_binary64_def)
  with c(3) show ?thesis by blast
qed

lemma naive_stable_tolerance:
  assumes "length p = 4" and "\<forall>a \<in> set p. binary64 a = Fin a \<and> \<bar>a\<bar> \<le> 8"
  shows "\<exists>b g. getLogFunc_bad binary64 notebook_mvn (map Fin p) = Inr (Fin b) \<and>
           getLogFunc binary64 notebook_binary64 (map Fin p) = Inr (Fin g) \<and>
           \<bar>b - g\<bar> \<le> \<bar>g\<bar> / 10 ^ 9"
proof -
  obtain a0 a1 a2 a3 where p: "p = [a0, a1, a2, a3]"
    using assms(1) by (rule length_four)
  obtain b g where bg:
      "getLogFunc_bad binary64 notebook_mvn [Fin a0, Fin a1, Fin a2, Fin a3] = Inr (Fin b)"
      "getLogFunc binary64 notebook_binary64 [Fin a0, Fin a1, Fin a2, Fin a3] = Inr (Fin g)"
      "g \<le> - 2" "\<bar>b - g\<bar> \<le> 309 * unit_roundoff"
    using naive_stable_close [of a0 a1 a2 a3] assms(2) unfolding p by auto
  have "309 * unit_roundoff \<le> 2 / 10 ^ 9" using unit_roundoff_bounds(2) by simp
  moreover have "2 / 10 ^ 9 \<le> \<bar>g\<bar> / 10 ^ 9" using bg(3) by (intro divide_right_mono) simp_all
  ultimately have "\<bar>b - g\<bar> \<le> \<bar>g\<bar> / 10 ^ 9" using bg(4) by linarith
  with bg(1,2) show ?thesis unfolding p by auto
qed

lemma binary64_lower:
  assumes "L \<le> x" and "0 < L" and "representable L"
  shows "fle (Fin L) (binary64 x)"
proof -
  from assms(3) obtain m k where "L = of_int m * 2 powr of_int k" "\<bar>m\<bar> < 2 ^ 53" "- 1074 \<le> k"
    unfolding representable_def by blast
  then have "L \<le> nearest x" using assms(1) by (intro nearest_ge_representable)
  moreover have "0 < x" using assms(1,2) by linarith
  ultimately show ?thesis by (simp add: binary64_def Let_def)
qed

lemma fadd_lower:
  assumes "fle (Fin L) u" and "fle (Fin 0) v" and "0 < L" and "representable L"
  shows "fle (Fin L) (fadd binary64 u v)" and "fle (Fin L) (fadd binary64 v u)"
  using assms by (cases u; cases v; simp add: binary64_lower)+

lemma square_lower:
  fixes a :: real
  assumes "64 \<le> \<bar>a\<bar>"
  shows "fle (Fin 4096) (binary64 (a * a))"
proof -
  have "64 * 64 \<le> \<bar>a\<bar> * \<bar>a\<bar>" using assms by (intro mult_mono) simp_all
  then have "4096 \<le> a * a" by (simp add: abs_mult_self_eq)
  then show ?thesis by (intro binary64_lower) (simp_all add: representable_numeral)
qed

lemma quadratic_lower:
  fixes a0 a1 a2 a3 :: real
  assumes "64 \<le> \<bar>a0\<bar> \<or> 64 \<le> \<bar>a1\<bar> \<or> 64 \<le> \<bar>a2\<bar> \<or> 64 \<le> \<bar>a3\<bar>"
  shows "fle (Fin 4096) (foldl (fadd binary64) (Fin 0)
           [binary64 (a0 * a0), binary64 (a1 * a1), binary64 (a2 * a2), binary64 (a3 * a3)])"
proof -
  have R: "representable 4096" by (simp add: representable_numeral)
  have P: "(0::real) < 4096" by simp
  have n: "fle (Fin 0) (binary64 (a * a))" for a :: real by (intro binary64_nonneg) simp
  have z: "fle (Fin 0) (Fin 0)" by simp
  note lo = fadd_lower [OF _ _ P R]
  from assms consider "64 \<le> \<bar>a0\<bar>" | "64 \<le> \<bar>a1\<bar>" | "64 \<le> \<bar>a2\<bar>" | "64 \<le> \<bar>a3\<bar>" by blast
  then show ?thesis
  proof cases
    case 1
    have "fle (Fin 4096) (fadd binary64 (Fin 0) (binary64 (a0 * a0)))"
      by (rule lo(2) [OF square_lower [OF 1] z])
    then have "fle (Fin 4096) (fadd binary64 (fadd binary64 (Fin 0) (binary64 (a0 * a0)))
        (binary64 (a1 * a1)))" by (rule lo(1) [OF _ n])
    then have "fle (Fin 4096) (fadd binary64 (fadd binary64 (fadd binary64 (Fin 0)
        (binary64 (a0 * a0))) (binary64 (a1 * a1))) (binary64 (a2 * a2)))" by (rule lo(1) [OF _ n])
    then have "fle (Fin 4096) (fadd binary64 (fadd binary64 (fadd binary64 (fadd binary64 (Fin 0)
        (binary64 (a0 * a0))) (binary64 (a1 * a1))) (binary64 (a2 * a2))) (binary64 (a3 * a3)))"
      by (rule lo(1) [OF _ n])
    then show ?thesis by (simp only: foldl.simps)
  next
    case 2
    have "fle (Fin 0) (fadd binary64 (Fin 0) (binary64 (a0 * a0)))"
      by (rule fadd_nonneg [OF z n])
    then have "fle (Fin 4096) (fadd binary64 (fadd binary64 (Fin 0) (binary64 (a0 * a0)))
        (binary64 (a1 * a1)))" by (rule lo(2) [OF square_lower [OF 2]])
    then have "fle (Fin 4096) (fadd binary64 (fadd binary64 (fadd binary64 (Fin 0)
        (binary64 (a0 * a0))) (binary64 (a1 * a1))) (binary64 (a2 * a2)))" by (rule lo(1) [OF _ n])
    then have "fle (Fin 4096) (fadd binary64 (fadd binary64 (fadd binary64 (fadd binary64 (Fin 0)
        (binary64 (a0 * a0))) (binary64 (a1 * a1))) (binary64 (a2 * a2))) (binary64 (a3 * a3)))"
      by (rule lo(1) [OF _ n])
    then show ?thesis by (simp only: foldl.simps)
  next
    case 3
    have "fle (Fin 0) (fadd binary64 (Fin 0) (binary64 (a0 * a0)))"
      by (rule fadd_nonneg [OF z n])
    then have "fle (Fin 0) (fadd binary64 (fadd binary64 (Fin 0) (binary64 (a0 * a0)))
        (binary64 (a1 * a1)))" by (rule fadd_nonneg [OF _ n])
    then have "fle (Fin 4096) (fadd binary64 (fadd binary64 (fadd binary64 (Fin 0)
        (binary64 (a0 * a0))) (binary64 (a1 * a1))) (binary64 (a2 * a2)))"
      by (rule lo(2) [OF square_lower [OF 3]])
    then have "fle (Fin 4096) (fadd binary64 (fadd binary64 (fadd binary64 (fadd binary64 (Fin 0)
        (binary64 (a0 * a0))) (binary64 (a1 * a1))) (binary64 (a2 * a2))) (binary64 (a3 * a3)))"
      by (rule lo(1) [OF _ n])
    then show ?thesis by (simp only: foldl.simps)
  next
    case 4
    have "fle (Fin 0) (fadd binary64 (Fin 0) (binary64 (a0 * a0)))"
      by (rule fadd_nonneg [OF z n])
    then have "fle (Fin 0) (fadd binary64 (fadd binary64 (Fin 0) (binary64 (a0 * a0)))
        (binary64 (a1 * a1)))" by (rule fadd_nonneg [OF _ n])
    then have "fle (Fin 0) (fadd binary64 (fadd binary64 (fadd binary64 (Fin 0)
        (binary64 (a0 * a0))) (binary64 (a1 * a1))) (binary64 (a2 * a2)))"
      by (rule fadd_nonneg [OF _ n])
    then have "fle (Fin 4096) (fadd binary64 (fadd binary64 (fadd binary64 (fadd binary64 (Fin 0)
        (binary64 (a0 * a0))) (binary64 (a1 * a1))) (binary64 (a2 * a2))) (binary64 (a3 * a3)))"
      by (rule lo(2) [OF square_lower [OF 4]])
    then show ?thesis by (simp only: foldl.simps)
  qed
qed

lemma exp_underflow_below:
  fixes x :: real
  assumes "x \<le> - 2048"
  shows "binary64 (exp x) = Fin 0"
proof (rule binary64_underflow)
  have "x < - 1075 * ln 2" using assms ln_two_bounds(2) by linarith
  then have "exp x < exp (- 1075 * ln 2)" by (simp only: exp_less_cancel_iff)
  also have "\<dots> = 2 powr (- 1075)" by (simp add: powr_def)
  finally show "\<bar>exp x\<bar> < 2 powr (- 1075)" by simp
qed

lemma exp_half_underflow:
  assumes "fle (Fin 4096) q"
  shows "np_exp binary64 (fmul binary64 (Fin (- 1 / 2)) q) = Fin 0"
proof (cases q)
  case (Fin Q)
  with assms have Q: "4096 \<le> Q" by simp
  have "fle (Fin 2048) (binary64 (1 / 2 * Q))"
    using Q by (intro binary64_lower) (simp_all add: representable_numeral)
  moreover have "binary64 (- 1 / 2 * Q) = fneg (binary64 (1 / 2 * Q))"
    using binary64_minus [of "1 / 2 * Q"] by simp
  ultimately have "np_exp binary64 (binary64 (- 1 / 2 * Q)) = Fin 0"
    by (cases "binary64 (1 / 2 * Q)") (simp_all add: exp_underflow_below)
  then show ?thesis by (simp add: Fin)
qed (use assms in simp_all)

lemma getLogFunc_bad_far:
  assumes "length p = 4" and "\<forall>a \<in> set p. binary64 a = Fin a" and "\<exists>a \<in> set p. 64 \<le> \<bar>a\<bar>"
  shows "getLogFunc_bad binary64 notebook_mvn (map Fin p) = Inr NInf"
proof -
  obtain a0 a1 a2 a3 where p: "p = [a0, a1, a2, a3]"
    using assms(1) by (rule length_four)
  have d: "binary64 a0 = Fin a0" "binary64 a1 = Fin a1" "binary64 a2 = Fin a2"
      "binary64 a3 = Fin a3"
    using assms(2) by (simp_all add: p)
  have "64 \<le> \<bar>a0\<bar> \<or> 64 \<le> \<bar>a1\<bar> \<or> 64 \<le> \<bar>a2\<bar> \<or> 64 \<le> \<bar>a3\<bar>"
    using assms(3) by (simp add: p)
  then have e: "np_exp binary64 (fmul binary64 (Fin (- 1 / 2)) (foldl (fadd binary64) (Fin 0)
      [binary64 (a0 * a0), binary64 (a1 * a1), binary64 (a2 * a2), binary64 (a3 * a3)])) = Fin 0"
    by (intro exp_half_underflow quadratic_lower)
  obtain k where k: "fmul binary64 (np_power binary64 (fmul binary64 (Fin 2) (binary64 pi)) (- 2))
          (np_power binary64 (Fin 1) (- 1 / 2)) = Fin k"
    using normalization_binary64 by blast
  have "getLogFunc_bad binary64 notebook_mvn [Fin a0, Fin a1, Fin a2, Fin a3] = Inr NInf"
    unfolding getLogFunc_bad_binary64_value [OF d] e k by (simp add: binary64_zero)
  then show ?thesis by (simp add: p)
qed

section \<open>The claims\<close>



text \<open>
  Claim C2. The log normalization constant computed by the cell,
  \<open>NDIM * ln (1 / sqrt (2\<pi>)) + ln (sqrt (det INVCOV))\<close>, equals
  \<open>-(N/2) ln (2\<pi>) - 1/2 ln (det COVMAT)\<close> for every covariance matrix with positive
  determinant on which the cell succeeds. The equality is stated in exact arithmetic. The
  proof needs the determinant of the inverse to be the reciprocal of the determinant: that
  is proved here for matrices of at most four rows, the notebook's among them, and is a
  hypothesis for larger ones. In double precision the \<open>MVN_COEF\<close> of the notebook
  (\<open>N = 4\<close>, identity covariance) lies within \<open>40 * 2^-53\<close> of that value.
\<close>

theorem MVN_COEF_closed_form:
  "(init_module exact n mean covmat = Inr g \<and> 0 < det covmat \<and>
      (length covmat \<le> 4 \<or> det (inverse_matrix covmat) = 1 / det covmat) \<longrightarrow>
      MVN_COEF g = Fin (- (real n / 2) * ln (2 * pi) - 1 / 2 * ln (det covmat))) \<and>
   (\<exists>g' c. notebook_module binary64 = Inr g' \<and> MVN_COEF g' = Fin c \<and>
      \<bar>c - (- (4 / 2) * ln (2 * pi) - 1 / 2 * ln (det (eye 4)))\<bar> \<le> 40 * unit_roundoff)"
proof (intro conjI impI)
  assume "init_module exact n mean covmat = Inr g \<and> 0 < det covmat \<and>
      (length covmat \<le> 4 \<or> det (inverse_matrix covmat) = 1 / det covmat)"
  then show "MVN_COEF g = Fin (- (real n / 2) * ln (2 * pi) - 1 / 2 * ln (det covmat))"
    using MVN_COEF_exact [of n mean covmat g] by blast
next
  obtain c where c: "log_coef binary64 4 (Fin 1) = Fin c"
      "\<bar>c - (- 2 * ln (2 * pi))\<bar> \<le> 40 * unit_roundoff"
    using MVN_COEF_binary64_accurate by blast
  then have "MVN_COEF notebook_binary64 = Fin c \<and>
      \<bar>c - (- (4 / 2) * ln (2 * pi) - 1 / 2 * ln (det (eye 4)))\<bar> \<le> 40 * unit_roundoff"
    by (simp add: notebook_binary64_def det_eye)
  then show "\<exists>g' c. notebook_module binary64 = Inr g' \<and> MVN_COEF g' = Fin c \<and>
      \<bar>c - (- (4 / 2) * ln (2 * pi) - 1 / 2 * ln (det (eye 4)))\<bar> \<le> 40 * unit_roundoff"
    using notebook_module_binary64_eq by blast
qed

text \<open>
  Witness for C2: a covariance of four rows with determinant 3.
\<close>

theorem MVN_COEF_closed_form_witness:
  "\<exists>g. init_module exact 4 (np_zeros 4) [[2, 1, 0, 0], [1, 2, 0, 0], [0, 0, 1, 0], [0, 0, 0, 1]]
         = Inr g \<and>
       MVN_COEF g = Fin (- (real 4 / 2) * ln (2 * pi) - 1 / 2 * ln 3)"
proof -
  let ?a = "[[2, 1, 0, 0], [1, 2, 0, 0], [0, 0, 1, 0], [0, 0, 0, 1 :: real]]"
  have d: "det ?a = 3" unfolding det_4x4 by (simp add: det4_def det3_def)
  have sq: "square ?a" by (simp add: square_def)
  have di: "det (inverse_matrix ?a) = 1 / 3"
    using det_inverse_matrix_small [OF sq] d by simp
  obtain g where g: "init_module exact 4 (np_zeros 4) ?a = Inr g"
    using init_module_exact [of ?a 4 "np_zeros 4"] sq d di by simp
  have "MVN_COEF g = Fin (- (real 4 / 2) * ln (2 * pi) - 1 / 2 * ln 3)"
    using MVN_COEF_closed_form [of 4 "np_zeros 4" ?a g] g d by simp
  with g show ?thesis by blast
qed

text \<open>
  Claim C3. In exact arithmetic the naive path \<open>getLogFunc_bad\<close>, the logarithm of the
  normalization constant times \<open>exp (- 1/2 quadraticForm)\<close>, and the stable path
  \<open>getLogFunc\<close> return the same value at every query point of the correct dimension.
  The two paths are built from the same mean and covariance of positive determinant; for
  more than four dimensions the determinant of the inverse is assumed to be the reciprocal
  of the determinant. In double precision, for the notebook's two objects and every point
  of four doubles of magnitude at most 8 (eight standard deviations in each coordinate),
  both paths return finite numbers that differ by at most \<open>10^-9\<close> times the magnitude of
  the stable result.
\<close>

theorem getLogFunc_bad_equals_getLogFunc:
  "(init_module exact n (map Fin m) covmat = Inr g \<and> length m = n \<and> length covmat = n \<and>
      0 < det covmat \<and> (n \<le> 4 \<or> det (inverse_matrix covmat) = 1 / det covmat) \<and>
      length point = n \<longrightarrow>
      getLogFunc_bad exact \<lparr>mvn_mean = map Fin m, mvn_cov = covmat\<rparr> (map Fin point) =
        getLogFunc exact g (map Fin point)) \<and>
   (length p = 4 \<and> (\<forall>a \<in> set p. binary64 a = Fin a \<and> \<bar>a\<bar> \<le> 8) \<longrightarrow>
      (\<exists>g' b v. notebook_module binary64 = Inr g' \<and>
         getLogFunc_bad binary64 notebook_mvn (map Fin p) = Inr (Fin b) \<and>
         getLogFunc binary64 g' (map Fin p) = Inr (Fin v) \<and>
         \<bar>b - v\<bar> \<le> \<bar>v\<bar> / 10 ^ 9))"
proof (intro conjI impI)
  assume "init_module exact n (map Fin m) covmat = Inr g \<and> length m = n \<and> length covmat = n \<and>
      0 < det covmat \<and> (n \<le> 4 \<or> det (inverse_matrix covmat) = 1 / det covmat) \<and>
      length point = n"
  then show "getLogFunc_bad exact \<lparr>mvn_mean = map Fin m, mvn_cov = covmat\<rparr> (map Fin point) =
        getLogFunc exact g (map Fin point)"
    using naive_equals_stable_exact [of n m covmat g point] by blast
next
  assume "length p = 4 \<and> (\<forall>a \<in> set p. binary64 a = Fin a \<and> \<bar>a\<bar> \<le> 8)"
  then obtain b v where
      "getLogFunc_bad binary64 notebook_mvn (map Fin p) = Inr (Fin b)"
      "getLogFunc binary64 notebook_binary64 (map Fin p) = Inr (Fin v)"
      "\<bar>b - v\<bar> \<le> \<bar>v\<bar> / 10 ^ 9"
    using naive_stable_tolerance [of p] by blast
  then show "\<exists>g' b v. notebook_module binary64 = Inr g' \<and>
         getLogFunc_bad binary64 notebook_mvn (map Fin p) = Inr (Fin b) \<and>
         getLogFunc binary64 g' (map Fin p) = Inr (Fin v) \<and>
         \<bar>b - v\<bar> \<le> \<bar>v\<bar> / 10 ^ 9"
    using notebook_module_binary64_eq by blast
qed

text \<open>
  Witness for C3: the notebook's two objects, a zero mean and the identity covariance of
  dimension 4, at the point \<open>[1, 2, 3, 4]\<close>, in both arithmetics.
\<close>

theorem getLogFunc_bad_equals_getLogFunc_witness:
  "(\<exists>g. notebook_module exact = Inr g \<and>
       getLogFunc_bad exact notebook_mvn (map Fin [1, 2, 3, 4]) =
       getLogFunc exact g (map Fin [1, 2, 3, 4])) \<and>
   (\<exists>g' b v. notebook_module binary64 = Inr g' \<and>
       getLogFunc_bad binary64 notebook_mvn (map Fin [1, 2, 3, 4]) = Inr (Fin b) \<and>
       getLogFunc binary64 g' (map Fin [1, 2, 3, 4]) = Inr (Fin v) \<and>
       \<bar>b - v\<bar> \<le> \<bar>v\<bar> / 10 ^ 9)"
proof -
  have z: "np_zeros 4 = map Fin [0, 0, 0, 0]" by (simp add: np_zeros_def numeral_nat)
  obtain g where g: "init_module exact 4 (map Fin [0, 0, 0, 0]) (eye 4) = Inr g"
    by (simp add: init_module_eye)
  have d: "\<forall>a \<in> set [1, 2, 3, 4 :: real]. binary64 a = Fin a \<and> \<bar>a\<bar> \<le> 8"
    by (simp add: binary64_one binary64_numeral)
  note t = getLogFunc_bad_equals_getLogFunc [of 4 "[0, 0, 0, 0]" "eye 4" g "[1, 2, 3, 4]"
      "[1, 2, 3, 4]"]
  have "getLogFunc_bad exact \<lparr>mvn_mean = map Fin [0, 0, 0, 0], mvn_cov = eye 4\<rparr>
          (map Fin [1, 2, 3, 4]) = getLogFunc exact g (map Fin [1, 2, 3, 4])"
    using t g by (simp add: length_eye det_eye)
  then have "\<exists>g. notebook_module exact = Inr g \<and>
       getLogFunc_bad exact notebook_mvn (map Fin [1, 2, 3, 4]) =
       getLogFunc exact g (map Fin [1, 2, 3, 4])"
    using g by (simp add: notebook_module_def notebook_mvn_def z)
  moreover have "\<exists>g' b v. notebook_module binary64 = Inr g' \<and>
       getLogFunc_bad binary64 notebook_mvn (map Fin [1, 2, 3, 4]) = Inr (Fin b) \<and>
       getLogFunc binary64 g' (map Fin [1, 2, 3, 4]) = Inr (Fin v) \<and>
       \<bar>b - v\<bar> \<le> \<bar>v\<bar> / 10 ^ 9"
    using t d by simp
  ultimately show ?thesis by blast
qed

text \<open>
  Claim C4. For the standard unit-normal configuration of any dimension \<open>n\<close> (zero mean,
  identity covariance), and so for the notebook's \<open>n = 4\<close>, the cell succeeds and
  \<open>getLogFunc\<close> at the zero vector returns \<open>-(n/2) ln (2\<pi>)\<close> in exact arithmetic.
  In double precision, for the notebook's \<open>n = 4\<close>, the result lies within
  \<open>40 * 2^-53\<close> of \<open>-(4/2) ln (2\<pi>)\<close>.
\<close>

theorem getLogFunc_at_mean_standard_normal:
  "(\<exists>g. init_module exact n (np_zeros n) (eye n) = Inr g \<and>
        getLogFunc exact g (np_zeros n) = Inr (Fin (- (real n / 2) * ln (2 * pi)))) \<and>
   (\<exists>g. notebook_module exact = Inr g \<and>
        getLogFunc exact g (np_zeros 4) = Inr (Fin (- (4 / 2) * ln (2 * pi)))) \<and>
   (\<exists>g v. notebook_module binary64 = Inr g \<and>
        getLogFunc binary64 g (np_zeros 4) = Inr (Fin v) \<and>
        \<bar>v - (- (4 / 2) * ln (2 * pi))\<bar> \<le> 40 * unit_roundoff)"
proof -
  obtain v where "getLogFunc binary64 notebook_binary64 (np_zeros 4) = Inr (Fin v)"
      "\<bar>v - (- 2 * ln (2 * pi))\<bar> \<le> 40 * unit_roundoff"
    using getLogFunc_binary64_at_mean_accurate by blast
  then have "\<exists>g v. notebook_module binary64 = Inr g \<and>
        getLogFunc binary64 g (np_zeros 4) = Inr (Fin v) \<and>
        \<bar>v - (- (4 / 2) * ln (2 * pi))\<bar> \<le> 40 * unit_roundoff"
    using notebook_module_binary64_eq by auto
  then show ?thesis using getLogFunc_exact_at_zero [of n] by blast
qed

text \<open>
  Claim C5 says that \<open>getLogFunc\<close> returns a finite number for every point of the
  correct dimension with finite entries, however far from the mean. In double precision this
  fails: for the notebook's module and the point with four entries \<open>2^600\<close> the squares
  overflow and the result is \<open>-inf\<close>.
\<close>

theorem getLogFunc_overflow_counterexample:
  "notebook_module binary64 = Inr notebook_binary64 \<and>
   getLogFunc binary64 notebook_binary64 [Fin (2 ^ 600), Fin (2 ^ 600), Fin (2 ^ 600), Fin (2 ^ 600)]
     = Inr NInf"
proof -
  define X :: real where "X = 2 ^ 600"
  obtain c where c: "log_coef binary64 4 (Fin 1) = Fin c"
    by (rule log_coef_binary64_Fin)
  have n: "binary64 (- X) = Fin (- X)"
    unfolding X_def by (rule binary64_pow2) simp
  have "X * X = 2 ^ 1200" unfolding X_def by (simp only: power_add [symmetric]) simp
  then have o: "binary64 (X * X) = PInf"
    using binary64_pow2_overflow [of 1200] by simp
  have "getLogFunc binary64 notebook_binary64 [Fin X, Fin X, Fin X, Fin X] = Inr NInf"
    by (simp add: getLogFunc_def notebook_binary64_def sub4 matmul4 dot4 fsub_def
        binary64_zero n o c)
  then show ?thesis
    by (simp add: notebook_module_binary64_eq X_def)
qed

text \<open>
  Claim C5, amended. For the notebook's module and a point of four finite entries: in exact
  arithmetic \<open>getLogFunc\<close> returns the real number
  \<open>MVN_COEF - 1/2 \<Sum> point\<^sub>i\<^sup>2\<close>; in double precision it returns a finite number
  whenever every entry has magnitude at most \<open>2^500\<close>, and at the point
  \<open>[10000, 10000, 10000, 10000]\<close> of the notebook that number lies within \<open>10^-6\<close> of
  \<open>- 2 ln (2\<pi>) - 200000000\<close>.
\<close>

theorem getLogFunc_finite:
  "(length p = 4 \<longrightarrow>
      getLogFunc exact notebook_exact (map Fin p) =
        Inr (Fin (- 2 * ln (2 * pi) - 1 / 2 * (\<Sum>i<4. (p ! i)\<^sup>2)))) \<and>
   (length p = 4 \<and> (\<forall>a \<in> set p. \<bar>a\<bar> \<le> 2 ^ 500) \<longrightarrow>
      (\<exists>r. getLogFunc binary64 notebook_binary64 (map Fin p) = Inr (Fin r))) \<and>
   (\<exists>r. getLogFunc binary64 notebook_binary64 [Fin 10000, Fin 10000, Fin 10000, Fin 10000] =
           Inr (Fin r) \<and>
         \<bar>r - (- 2 * ln (2 * pi) - 200000000)\<bar> \<le> 1 / 1000000)"
  using getLogFunc_finite_both [of p] getLogFunc_binary64_far by blast

text \<open>
  Witness for C5: the point \<open>[10000, 10000, 10000, 10000]\<close> of the notebook, where the
  exact value is \<open>- 2 ln (2\<pi>) - 200000000\<close> and the double-precision value is finite.
\<close>

theorem getLogFunc_finite_witness:
  "getLogFunc exact notebook_exact (map Fin [10000, 10000, 10000, 10000]) =
     Inr (Fin (- 2 * ln (2 * pi) - 200000000)) \<and>
   (\<exists>r. getLogFunc binary64 notebook_binary64 (map Fin [10000, 10000, 10000, 10000]) =
     Inr (Fin r))"
proof -
  have "(10000::real) \<le> 2 ^ 500"
  proof -
    have "(10000::real) \<le> 2 ^ 14" by simp
    also have "\<dots> \<le> 2 ^ 500" by (intro power_increasing) simp_all
    finally show ?thesis .
  qed
  then show ?thesis
    using getLogFunc_finite [of "[10000, 10000, 10000, 10000]"]
    by (simp add: lessThan_nat_numeral lessThan_Suc)
qed

text \<open>
  Claim C6. In double precision, for the notebook's distribution and every point of four
  doubles with a coordinate of magnitude 64 or more, the exponential underflows to zero and
  \<open>getLogFunc_bad\<close> returns \<open>-inf\<close>: a value (\<open>Inr\<close>), not a raised error
  (\<open>Inl\<close>). In particular, at the point \<open>[10000, 10000, 10000, 10000]\<close> of the
  notebook the exponential \<open>exp (- 1/2 * 400000000)\<close> is zero and the result is
  \<open>-inf\<close>, while \<open>getLogFunc\<close> returns a finite number there.
\<close>

theorem getLogFunc_bad_underflow:
  "(length p = 4 \<and> (\<forall>a \<in> set p. binary64 a = Fin a) \<and> (\<exists>a \<in> set p. 64 \<le> \<bar>a\<bar>) \<longrightarrow>
      getLogFunc_bad binary64 notebook_mvn (map Fin p) = Inr NInf) \<and>
   np_exp binary64 (Fin (- 200000000)) = Fin 0 \<and>
   getLogFunc_bad binary64 notebook_mvn [Fin 10000, Fin 10000, Fin 10000, Fin 10000] = Inr NInf \<and>
   (\<exists>r. getLogFunc binary64 notebook_binary64 [Fin 10000, Fin 10000, Fin 10000, Fin 10000] =
      Inr (Fin r))"
  using getLogFunc_bad_far [of p] getLogFunc_bad_underflow_notebook by blast

text \<open>
  Witness for C6: the point \<open>[100, 0, 0, 0]\<close>.
\<close>

theorem getLogFunc_bad_underflow_witness:
  "getLogFunc_bad binary64 notebook_mvn (map Fin [100, 0, 0, 0]) = Inr NInf"
proof -
  have "\<forall>a \<in> set [100, 0, 0, 0 :: real]. binary64 a = Fin a"
    by (simp add: binary64_zero binary64_numeral)
  then show ?thesis
    using getLogFunc_bad_underflow [of "[100, 0, 0, 0]"] by simp
qed

text \<open>
  Claim C7 says that \<open>getLogFunc\<close> fails on every point whose length differs from the
  dimension. It does not: \<open>MEAN - point\<close> broadcasts a point of length one, and for the
  notebook's module the call \<open>getLogFunc([10000])\<close> returns a number.
\<close>

theorem getLogFunc_length_one_counterexample:
  "notebook_module exact = Inr notebook_exact \<and>
   length [Fin 10000] \<noteq> NDIM notebook_exact \<and>
   getLogFunc exact notebook_exact [Fin 10000] = Inr (Fin (- 2 * ln (2 * pi) - 200000000))"
proof -
  let ?g = "\<lparr>NDIM = 4, MEAN = np_zeros 4, COVMAT = eye 4, INVCOV = map (map Fin) (eye 4),
          MVN_COEF = Fin (- 2 * ln (2 * pi))\<rparr>"
  let ?d = "[- 10000, - 10000, - 10000, - 10000 :: real]"
  have sub: "np_subtract exact (MEAN ?g) [Fin 10000] = Inr (map Fin ?d)"
    by (simp add: np_subtract_def np_zeros_def exact_eq fsub_Fin numeral_nat)
  have "getLogFunc exact ?g [Fin 10000] =
        Inr (Fin (- 2 * ln (2 * pi) - 1 / 2 * quadraticForm ?d (eye 4)))"
    using sub by (rule getLogFunc_exact_from_difference [where n = 4])
      (simp_all add: length_eye rows_eye)
  moreover have "quadraticForm ?d (eye 4) = 400000000"
    by (simp add: quadraticForm_eye [of _ 4] lessThan_nat_numeral lessThan_Suc)
  ultimately show ?thesis
    by (simp add: notebook_module_exact_eq notebook_exact_def)
qed

text \<open>
  Claim C7, amended. For a module whose \<open>INVCOV\<close> is square of the dimension of
  \<open>MEAN\<close>, in either arithmetic: \<open>getLogFunc\<close> raises (numpy's \<open>ValueError\<close>)
  whenever the length of the point is neither the dimension nor one, and returns a result
  for every point of length one.
\<close>

theorem getLogFunc_wrong_length:
  assumes "length (INVCOV g) = length (MEAN g)"
    and "\<forall>r \<in> set (INVCOV g). length r = length (MEAN g)"
  shows "(length point \<noteq> length (MEAN g) \<and> length point \<noteq> 1 \<longrightarrow>
            getLogFunc rnd g point = Inl ValueError) \<and>
         (length point = 1 \<longrightarrow> (\<exists>v. getLogFunc rnd g point = Inr v))"
  using assms getLogFunc_no_broadcast [of g point rnd] getLogFunc_broadcast [of g point rnd]
  by blast

text \<open>
  Witness for C7: the notebook's module with a point of length two, which raises, and a point
  of length one, which does not.
\<close>

theorem getLogFunc_wrong_length_witness:
  "getLogFunc exact
     \<lparr>NDIM = 4, MEAN = np_zeros 4, COVMAT = eye 4, INVCOV = map (map Fin) (eye 4),
      MVN_COEF = Fin (- 2 * ln (2 * pi))\<rparr> [Fin 1, Fin 2] = Inl ValueError \<and>
   (\<exists>v. getLogFunc exact
     \<lparr>NDIM = 4, MEAN = np_zeros 4, COVMAT = eye 4, INVCOV = map (map Fin) (eye 4),
      MVN_COEF = Fin (- 2 * ln (2 * pi))\<rparr> [Fin 10000] = Inr v)"
  using getLogFunc_wrong_length [of "\<lparr>NDIM = 4, MEAN = np_zeros 4, COVMAT = eye 4,
      INVCOV = map (map Fin) (eye 4), MVN_COEF = Fin (- 2 * ln (2 * pi))\<rparr>" "[Fin 1, Fin 2]" exact]
    getLogFunc_wrong_length [of "\<lparr>NDIM = 4, MEAN = np_zeros 4, COVMAT = eye 4,
      INVCOV = map (map Fin) (eye 4), MVN_COEF = Fin (- 2 * ln (2 * pi))\<rparr>" "[Fin 10000]" exact]
  by (simp add: length_eye rows_eye np_zeros_def)




text \<open>
  Claim C10 says that \<open>getLogFunc(point) \<le> MVN_COEF\<close>, with equality exactly when the
  point is the mean. In double precision equality also holds away from the mean: for the
  notebook's module and the point with four entries \<open>2^-600\<close> every square underflows to
  zero and the result is \<open>MVN_COEF\<close> itself.
\<close>

theorem getLogFunc_equality_counterexample:
  "notebook_module binary64 = Inr notebook_binary64 \<and>
   [Fin (2 powr (- 600)), Fin (2 powr (- 600)), Fin (2 powr (- 600)), Fin (2 powr (- 600))]
     \<noteq> MEAN notebook_binary64 \<and>
   getLogFunc binary64 notebook_binary64
     [Fin (2 powr (- 600)), Fin (2 powr (- 600)), Fin (2 powr (- 600)), Fin (2 powr (- 600))]
     = Inr (MVN_COEF notebook_binary64)"
proof -
  define X :: real where "X = 2 powr (- 600)"
  obtain c where c: "log_coef binary64 4 (Fin 1) = Fin c" "binary64 c = Fin c"
    using log_coef_binary64_Fin by blast
  have X: "X = 2 powr (- 600)" by (rule X_def)
  have "X \<le> 2 powr 0" unfolding X by (intro powr_mono) simp_all
  then have "\<not> 2 ^ 1024 \<le> \<bar>- X\<bar>" using X by simp
  then have n: "binary64 (- X) = Fin (- X)"
    using binary64_representable [of "- X" "- 1" "- 600"] X by simp
  have "X * X = 2 powr (- 1200)" unfolding X by (simp add: powr_add [symmetric])
  also have "\<dots> < 2 powr (- 1075)" by (intro powr_less_mono) simp_all
  finally have "\<bar>X * X\<bar> < 2 powr (- 1075)" using X by simp
  then have u: "binary64 (X * X) = Fin 0" by (rule binary64_underflow)
  have pos: "0 < X" by (simp add: X)
  have "getLogFunc binary64 notebook_binary64 [Fin X, Fin X, Fin X, Fin X] =
        Inr (MVN_COEF notebook_binary64)"
    by (simp add: getLogFunc_def notebook_binary64_def sub4 matmul4 dot4 fsub_def
        binary64_zero n u c)
  moreover have "[Fin X, Fin X, Fin X, Fin X] \<noteq> MEAN notebook_binary64"
    using pos by (simp add: notebook_binary64_def np_zeros_def numeral_nat)
  ultimately show ?thesis
    by (simp add: notebook_module_binary64_eq X_def)
qed

text \<open>
  Claim C10, amended. For the notebook's module and every point of four finite entries:
  in exact arithmetic \<open>getLogFunc(point) \<le> MVN_COEF\<close>, with equality exactly when the
  point is the mean; in double precision, for a point of four doubles,
  \<open>getLogFunc(point) <= MVN_COEF\<close> holds as a comparison of floats (the result may be
  \<open>-inf\<close>), and the result at the mean is \<open>MVN_COEF\<close>.
\<close>

theorem getLogFunc_le_MVN_COEF:
  assumes "length p = 4"
  shows "(\<exists>v c. MVN_COEF notebook_exact = Fin c \<and>
            getLogFunc exact notebook_exact (map Fin p) = Inr (Fin v) \<and>
            v \<le> c \<and> (v = c \<longleftrightarrow> map Fin p = MEAN notebook_exact)) \<and>
         ((\<forall>a \<in> set p. binary64 a = Fin a) \<longrightarrow>
            (\<exists>r. getLogFunc binary64 notebook_binary64 (map Fin p) = Inr r \<and>
                 fle r (MVN_COEF notebook_binary64))) \<and>
         getLogFunc binary64 notebook_binary64 (MEAN notebook_binary64) =
           Inr (MVN_COEF notebook_binary64)"
  using assms getLogFunc_exact_le [of p] getLogFunc_binary64_le [of p]
    getLogFunc_binary64_at_mean
  by blast

text \<open>
  Witness for C10: the point \<open>[1, 2, 3, 4]\<close>, which is not the mean, lies strictly
  below \<open>MVN_COEF\<close> in exact arithmetic and is made of doubles.
\<close>

theorem getLogFunc_le_MVN_COEF_witness:
  "getLogFunc exact notebook_exact (map Fin [1, 2, 3, 4]) = Inr (Fin (- 2 * ln (2 * pi) - 15)) \<and>
   - 2 * ln (2 * pi) - 15 < - 2 * ln (2 * pi) \<and>
   map Fin [1, 2, 3, 4] \<noteq> MEAN notebook_exact \<and>
   (\<exists>r. getLogFunc binary64 notebook_binary64 (map Fin [1, 2, 3, 4]) = Inr r \<and>
        fle r (MVN_COEF notebook_binary64))"
proof -
  have d: "\<forall>a \<in> set [1, 2, 3, 4 :: real]. binary64 a = Fin a"
    by (simp add: binary64_one binary64_numeral)
  have e: "getLogFunc exact notebook_exact (map Fin [1, 2, 3, 4]) =
      Inr (Fin (- 2 * ln (2 * pi) - 15))"
    using getLogFunc_exact_standard [of "[1, 2, 3, 4]" 4 "- 2 * ln (2 * pi)"]
    by (simp add: notebook_exact_def lessThan_nat_numeral lessThan_Suc)
  have "\<exists>r. getLogFunc binary64 notebook_binary64 (map Fin [1, 2, 3, 4]) = Inr r \<and>
        fle r (MVN_COEF notebook_binary64)"
    using getLogFunc_le_MVN_COEF [of "[1, 2, 3, 4]"] d by simp
  with e show ?thesis
    by (simp add: notebook_exact_def np_zeros_def numeral_nat)
qed

end
